theory Spec2Isabelle
  imports Complex_Main "HOL-Library.Multiset" "HOL-Library.Sublist" "HOL-Library.AList"
begin

section \<open>Collaborators outside the repository\<close>

text \<open>
  The repository is written against Chromium's \<^verbatim>\<open>base\<close> library.  The few pieces of it
  that the verified functions touch are modelled here, once, and kept as small as the
  calls need.

  \<^item> A C++ \<^verbatim>\<open>double\<close> is an IEEE 754 binary64 number.  It is modelled by the real number
    it denotes, and every operation of the source that rounds (a decimal literal, a
    product, a quotient, the conversion of a 64-bit integer) is followed by
    \<open>round_to_double\<close>, rounding to nearest with ties to even on a significand of 53
    bits.  The exponent is not bounded: overflow to an infinity, subnormal numbers and
    NaN are outside the model.
  \<^item> \<^verbatim>\<open>base::Time\<close> and \<^verbatim>\<open>base::TimeDelta\<close> hold a signed 64-bit count of microseconds,
    and the two ends of the 64-bit range stand for the infinite values.  A \<^verbatim>\<open>Time\<close>
    counts from 1601-01-01, and the count \<open>0\<close> is the null time of a default-constructed
    \<^verbatim>\<open>Time\<close>; the conversions to and from milliseconds since the Unix epoch shift by the
    distance of the two epochs, and the conversion to milliseconds sends the null time
    to \<open>0\<close>.  The conversions from a \<^verbatim>\<open>double\<close> saturate as the library does.  An
    infinite \<^verbatim>\<open>Time\<close> is exported as an infinite \<^verbatim>\<open>double\<close>, which the model does not
    have: \<open>InMillisecondsFSinceUnixEpoch\<close> is the code's function on the times that are
    not infinite and whose distance to the Unix epoch fits 64 bits.  The differences of
    times that the repository computes itself are taken in the integers.
  \<^item> \<^verbatim>\<open>base::Value\<close> is the JSON value tree.  \<^verbatim>\<open>JSONReader::Read\<close> and
    \<^verbatim>\<open>JSONWriter::Write\<close> are parameters of every function that calls them.
\<close>

subsection \<open>Doubles\<close>

definition round_half_even :: "real \<Rightarrow> int" where
  \<comment> \<open>The nearest integer; of the two nearest, the even one.\<close>
  "round_half_even y =
     (let f = \<lfloor>y\<rfloor>
      in if y - real_of_int f < 1 / 2 then f
         else if 1 / 2 < y - real_of_int f then f + 1
         else if even f then f else f + 1)"

function halvings :: "real \<Rightarrow> nat" where
  \<comment> \<open>For \<open>1 \<le> y\<close>: the \<open>n\<close> with \<open>2 ^ n \<le> y < 2 ^ (n + 1)\<close>.\<close>
  "halvings y = (if y < 2 then 0 else Suc (halvings (y / 2)))"
  by pat_completeness auto
termination
proof (relation "measure (\<lambda>y. nat \<lfloor>y\<rfloor>)")
  show "wf (measure (\<lambda>y. nat \<lfloor>y\<rfloor>))" by simp
next
  fix y :: real
  assume "\<not> y < 2"
  then have "\<lfloor>y / 2\<rfloor> < \<lfloor>y\<rfloor>" "0 < \<lfloor>y\<rfloor>" by linarith+
  then show "(y / 2, y) \<in> measure (\<lambda>y. nat \<lfloor>y\<rfloor>)" by simp
qed

function doublings :: "real \<Rightarrow> nat" where
  \<comment> \<open>For \<open>0 < y < 1\<close>: the \<open>n\<close> with \<open>1 \<le> 2 ^ n * y < 2\<close>.\<close>
  "doublings y = (if y \<le> 0 \<or> 1 \<le> y then 0 else Suc (doublings (2 * y)))"
  by pat_completeness auto
termination
proof (relation "measure (\<lambda>y. nat \<lceil>1 / y\<rceil>)")
  show "wf (measure (\<lambda>y. nat \<lceil>1 / y\<rceil>))" by simp
next
  fix y :: real
  assume "\<not> (y \<le> 0 \<or> 1 \<le> y)"
  then have y: "0 < y" "y < 1" by simp_all
  define z where "z = 1 / y"
  have "1 < z" using y by (simp add: z_def)
  then have two: "2 \<le> \<lceil>z\<rceil>" by (simp add: less_ceiling_iff)
  have "z \<le> real_of_int \<lceil>z\<rceil>" by simp
  moreover have "2 \<le> real_of_int \<lceil>z\<rceil>" using two by linarith
  ultimately have "z / 2 \<le> real_of_int \<lceil>z\<rceil> - 1" by linarith
  then have "z / 2 \<le> real_of_int (\<lceil>z\<rceil> - 1)" by (simp only: of_int_diff of_int_1)
  then have "\<lceil>z / 2\<rceil> \<le> \<lceil>z\<rceil> - 1" by (rule ceiling_le)
  with two have less: "\<lceil>z / 2\<rceil> < \<lceil>z\<rceil>" "0 < \<lceil>z\<rceil>" by simp_all
  have half: "1 / (2 * y) = z / 2" by (simp add: z_def)
  have "\<lceil>1 / (2 * y)\<rceil> < \<lceil>1 / y\<rceil>" "0 < \<lceil>1 / y\<rceil>"
    using less unfolding half z_def [symmetric] by blast+
  then show "(2 * y, y) \<in> measure (\<lambda>y. nat \<lceil>1 / y\<rceil>)" by simp
qed

declare halvings.simps [simp del] doublings.simps [simp del]

definition binade :: "real \<Rightarrow> int" where
  \<comment> \<open>The exponent \<open>e\<close> of a number other than \<open>0\<close>: \<open>2 ^ e \<le> \<bar>x\<bar> < 2 ^ (e + 1)\<close>.\<close>
  "binade x = (if 1 \<le> \<bar>x\<bar> then int (halvings \<bar>x\<bar>) else - int (doublings \<bar>x\<bar>))"

definition round_to_double :: "real \<Rightarrow> real" where
  \<comment> \<open>The nearest number with a significand of 53 bits, ties to even: the nearest
      multiple of the unit in the last place of the binade of \<open>x\<close>.\<close>
  "round_to_double x =
     (let ulp = 2 powi (binade x - 52)
      in real_of_int (round_half_even (x / ulp)) * ulp)"

subsection \<open>Times\<close>

type_synonym Time = int
type_synonym TimeDelta = int

definition INT64_MAX :: int where
  "INT64_MAX = 9223372036854775807"

definition INT64_MIN :: int where
  "INT64_MIN = - 9223372036854775808"

definition is_inf :: "int \<Rightarrow> bool" where
  \<comment> \<open>\<^verbatim>\<open>is_inf()\<close>, of \<^verbatim>\<open>Time\<close> and of \<^verbatim>\<open>TimeDelta\<close>: one of the two ends of the range.\<close>
  "is_inf t \<longleftrightarrow> t = INT64_MIN \<or> t = INT64_MAX"

definition truncate_toward_zero :: "real \<Rightarrow> int" where
  "truncate_toward_zero x = (if 0 \<le> x then \<lfloor>x\<rfloor> else \<lceil>x\<rceil>)"

definition saturated_cast :: "real \<Rightarrow> int" where
  \<comment> \<open>\<^verbatim>\<open>saturated_cast<int64_t>\<close> of a \<^verbatim>\<open>double\<close>: the fraction is cut off, and a number
      outside the 64-bit range becomes the end of the range on its side.\<close>
  "saturated_cast x =
     (if 9223372036854775808 \<le> x then INT64_MAX
      else if x \<le> - 9223372036854775808 then INT64_MIN
      else truncate_toward_zero x)"

definition ClampAdd :: "int \<Rightarrow> int \<Rightarrow> int" where
  "ClampAdd a b =
     (if INT64_MAX < a + b then INT64_MAX else if a + b < INT64_MIN then INT64_MIN else a + b)"

definition kTimeTToMicrosecondsOffset :: int where
  \<comment> \<open>the Unix epoch, as a \<^verbatim>\<open>Time\<close>\<close>
  "kTimeTToMicrosecondsOffset = 11644473600000000"

definition InMillisecondsFSinceUnixEpoch :: "Time \<Rightarrow> real" where
  \<comment> \<open>\<^verbatim>\<open>static_cast<double>(delta) / 1000\<close> of the distance to the Unix epoch: the
      conversion rounds, and the quotient of the two doubles rounds.\<close>
  "InMillisecondsFSinceUnixEpoch t =
     (if t = 0 then 0
      else round_to_double
             (round_to_double (real_of_int (t - kTimeTToMicrosecondsOffset)) / 1000))"

definition InMilliseconds :: "TimeDelta \<Rightarrow> int" where
  \<comment> \<open>C++ integer division truncates toward zero; an infinite value is returned as it
      is.\<close>
  "InMilliseconds d =
     (if is_inf d then d else if 0 \<le> d then d div 1000 else - ((- d) div 1000))"

definition Milliseconds :: "real \<Rightarrow> TimeDelta" where
  \<comment> \<open>\<^verbatim>\<open>base::Milliseconds(double)\<close>: the product of the two doubles rounds, and the
      conversion to the count of microseconds cuts the fraction off and saturates.\<close>
  "Milliseconds n = saturated_cast (round_to_double (n * 1000))"

definition FromMillisecondsSinceUnixEpoch :: "real \<Rightarrow> Time" where
  \<comment> \<open>\<^verbatim>\<open>UnixEpoch() + Milliseconds(dt)\<close>; adding an infinite \<^verbatim>\<open>TimeDelta\<close> gives the
      infinite \<^verbatim>\<open>Time\<close> of its sign, and the sum of the counts is clamped.\<close>
  "FromMillisecondsSinceUnixEpoch dt =
     (let delta = Milliseconds dt
      in if is_inf delta then delta else ClampAdd kTimeTToMicrosecondsOffset delta)"

subsection \<open>JSON values\<close>

datatype Value = NONE | BOOLEAN bool | INTEGER int | DOUBLE real | STRING string
  | DICT "(string \<times> Value) list" | LIST "Value list"

type_synonym Dict = "(string \<times> Value) list"

definition Set_key :: "string \<Rightarrow> Value \<Rightarrow> Dict \<Rightarrow> Dict" where
  \<comment> \<open>\<^verbatim>\<open>Dict::Set\<close>: insert, or overwrite the value of a key already there.\<close>
  "Set_key k v d = AList.update k v d"

definition FindInt :: "Dict \<Rightarrow> string \<Rightarrow> int option" where
  "FindInt d k = (case map_of d k of Some (INTEGER i) \<Rightarrow> Some i | _ \<Rightarrow> None)"

definition FindDouble :: "Dict \<Rightarrow> string \<Rightarrow> real option" where
  \<comment> \<open>\<^verbatim>\<open>FindDouble\<close> also answers for an integer value, converted.\<close>
  "FindDouble d k = (case map_of d k of Some (DOUBLE x) \<Rightarrow> Some x
                      | Some (INTEGER i) \<Rightarrow> Some (real_of_int i) | _ \<Rightarrow> None)"

definition FindString :: "Dict \<Rightarrow> string \<Rightarrow> string option" where
  "FindString d k = (case map_of d k of Some (STRING s) \<Rightarrow> Some s | _ \<Rightarrow> None)"

section \<open>Events (event\_types.h)\<close>

text \<open>
  \<^verbatim>\<open>enum class BrowsingEventType\<close> has underlying type \<^verbatim>\<open>int\<close>; the store casts it to
  \<^verbatim>\<open>int\<close> on export and casts any parsed \<^verbatim>\<open>int\<close> back on import, so the type is
  modelled by its underlying integer and the enumerators by their values.
\<close>

type_synonym BrowsingEventType = int

definition PAGE_LOAD :: BrowsingEventType where "PAGE_LOAD = 0"
definition PAGE_UNLOAD :: BrowsingEventType where "PAGE_UNLOAD = 1"
definition SCROLL :: BrowsingEventType where "SCROLL = 2"
definition CLICK :: BrowsingEventType where "CLICK = 3"
definition FORM_SUBMIT :: BrowsingEventType where "FORM_SUBMIT = 4"
definition SEARCH_QUERY :: BrowsingEventType where "SEARCH_QUERY = 5"

record BrowsingEvent =
  type :: BrowsingEventType
  url_hash :: string
  timestamp :: Time
  duration :: TimeDelta
  scroll_depth :: real
  element_type :: string
  search_query :: string
  referrer_hash :: string

definition BrowsingEvent_default :: "BrowsingEventType \<Rightarrow> BrowsingEvent" where
  \<comment> \<open>\<^verbatim>\<open>BrowsingEvent event;\<close>  The defaulted constructor leaves \<^verbatim>\<open>type\<close> without a
      value; the argument stands for whatever the storage holds.\<close>
  "BrowsingEvent_default indeterminate =
     \<lparr>type = indeterminate, url_hash = [], timestamp = 0, duration = 0, scroll_depth = 0,
      element_type = [], search_query = [], referrer_hash = []\<rparr>"

definition BrowsingEvent_init :: "BrowsingEventType \<Rightarrow> string \<Rightarrow> Time \<Rightarrow> BrowsingEvent" where
  \<comment> \<open>\<^verbatim>\<open>BrowsingEvent(t, hash, ts)\<close>\<close>
  "BrowsingEvent_init t hash ts =
     \<lparr>type = t, url_hash = hash, timestamp = ts, duration = 0, scroll_depth = 0,
      element_type = [], search_query = [], referrer_hash = []\<rparr>"

section \<open>The event store (encrypted\_store.cc)\<close>

record EncryptedStore =
  events :: "BrowsingEvent list"
  encryption_key :: string
  storage_path :: string

definition kMaxCachedEvents :: nat where
  "kMaxCachedEvents = 10000"

definition EncryptedStore_init :: EncryptedStore where
  "EncryptedStore_init = \<lparr>events = [], encryption_key = [], storage_path = ''pat_browsing_data.enc''\<rparr>"

definition Initialize :: "EncryptedStore \<Rightarrow> string \<Rightarrow> bool \<times> EncryptedStore" where
  "Initialize s key = (if length key < 16 then (False, s) else (True, s\<lparr>encryption_key := key\<rparr>))"

definition StoreEvent :: "EncryptedStore \<Rightarrow> BrowsingEvent \<Rightarrow> EncryptedStore" where
  \<comment> \<open>\<^verbatim>\<open>push_back\<close>, then one \<^verbatim>\<open>erase(begin())\<close> when the size is over the limit.\<close>
  "StoreEvent s event =
     (let pushed = events s @ [event]
      in s\<lparr>events := (if length pushed > kMaxCachedEvents then tl pushed else pushed)\<rparr>)"

definition GetAllEvents :: "EncryptedStore \<Rightarrow> BrowsingEvent list" where
  "GetAllEvents s = events s"

definition GetEventsInRange :: "EncryptedStore \<Rightarrow> Time \<Rightarrow> Time \<Rightarrow> BrowsingEvent list" where
  "GetEventsInRange s start end_time =
     filter (\<lambda>event. timestamp event \<ge> start \<and> timestamp event \<le> end_time) (events s)"

definition GetEventCount :: "EncryptedStore \<Rightarrow> nat" where
  "GetEventCount s = length (events s)"

definition ClearAll :: "EncryptedStore \<Rightarrow> EncryptedStore" where
  "ClearAll s = s\<lparr>events := []\<rparr>"

definition Encrypt :: "EncryptedStore \<Rightarrow> string \<Rightarrow> string" where
  "Encrypt s plaintext =
     (if encryption_key s = [] then plaintext else ''[ENCRYPTED]'' @ plaintext)"

definition Decrypt :: "EncryptedStore \<Rightarrow> string \<Rightarrow> string" where
  \<comment> \<open>\<^verbatim>\<open>substr(0, n)\<close> is \<open>take n\<close>; \<^verbatim>\<open>substr(n)\<close> is only reached when the prefix of
      length \<open>n\<close> is there, so it is \<open>drop n\<close>.\<close>
  "Decrypt s ciphertext =
     (if encryption_key s = [] then ciphertext
      else let prefix = ''[ENCRYPTED]''
           in if take (length prefix) ciphertext = prefix
              then drop (length prefix) ciphertext
              else ciphertext)"

definition event_dict :: "BrowsingEvent \<Rightarrow> Dict" where
  \<comment> \<open>The loop body of \<^verbatim>\<open>ExportEncrypted\<close>: one record per event, keys set in the
      source's order.  \<^verbatim>\<open>referrer_hash\<close> is not written.  The duration is a 64-bit
      count of milliseconds, stored as the \<^verbatim>\<open>double\<close> that \<^verbatim>\<open>FindDouble\<close> reads back on
      import.\<close>
  "event_dict event =
     (Set_key ''search_query'' (STRING (search_query event))
     (Set_key ''element_type'' (STRING (element_type event))
     (Set_key ''scroll_depth'' (DOUBLE (scroll_depth event))
     (Set_key ''duration_ms'' (DOUBLE (round_to_double (real_of_int (InMilliseconds (duration event)))))
     (Set_key ''timestamp'' (DOUBLE (InMillisecondsFSinceUnixEpoch (timestamp event)))
     (Set_key ''url_hash'' (STRING (url_hash event))
     (Set_key ''type'' (INTEGER (type event)) [])))))))"

definition ExportEncrypted :: "(Value \<Rightarrow> string) \<Rightarrow> EncryptedStore \<Rightarrow> string" where
  "ExportEncrypted Write s = Encrypt s (Write (LIST (map (\<lambda>event. DICT (event_dict event)) (events s))))"

definition import_event :: "BrowsingEventType \<Rightarrow> Dict \<Rightarrow> BrowsingEvent" where
  \<comment> \<open>The loop body of \<^verbatim>\<open>ImportEncrypted\<close> for a record: each field is assigned only
      when its key is found with the right type.\<close>
  "import_event indeterminate dict =
     (let event = BrowsingEvent_default indeterminate;
          event = (case FindInt dict ''type'' of Some t \<Rightarrow> event\<lparr>type := t\<rparr> | None \<Rightarrow> event);
          event = (case FindString dict ''url_hash'' of
                     Some h \<Rightarrow> event\<lparr>url_hash := h\<rparr> | None \<Rightarrow> event);
          event = (case FindDouble dict ''timestamp'' of
                     Some ts \<Rightarrow> event\<lparr>timestamp := FromMillisecondsSinceUnixEpoch ts\<rparr>
                   | None \<Rightarrow> event);
          event = (case FindDouble dict ''duration_ms'' of
                     Some d \<Rightarrow> event\<lparr>duration := Milliseconds d\<rparr> | None \<Rightarrow> event);
          event = (case FindDouble dict ''scroll_depth'' of
                     Some sd \<Rightarrow> event\<lparr>scroll_depth := sd\<rparr> | None \<Rightarrow> event);
          event = (case FindString dict ''element_type'' of
                     Some el \<Rightarrow> event\<lparr>element_type := el\<rparr> | None \<Rightarrow> event);
          event = (case FindString dict ''search_query'' of
                     Some q \<Rightarrow> event\<lparr>search_query := q\<rparr> | None \<Rightarrow> event)
      in event)"

fun import_loop ::
  "(nat \<Rightarrow> BrowsingEventType) \<Rightarrow> nat \<Rightarrow> Value list \<Rightarrow> BrowsingEvent list \<Rightarrow> BrowsingEvent list" where
  \<comment> \<open>The \<^verbatim>\<open>for\<close> loop of \<^verbatim>\<open>ImportEncrypted\<close>; \<open>indeterminate k\<close> is the unassigned
      \<^verbatim>\<open>type\<close> of the local event of iteration \<open>k\<close>.\<close>
  "import_loop indeterminate k [] evs = evs"
| "import_loop indeterminate k (DICT dict # items) evs =
     import_loop indeterminate (Suc k) items (evs @ [import_event (indeterminate k) dict])"
| "import_loop indeterminate k (_ # items) evs = import_loop indeterminate (Suc k) items evs"

definition ImportEncrypted ::
  "(string \<Rightarrow> Value option) \<Rightarrow> (nat \<Rightarrow> BrowsingEventType) \<Rightarrow> EncryptedStore \<Rightarrow> string
     \<Rightarrow> bool \<times> EncryptedStore" where
  "ImportEncrypted Read indeterminate s data =
     (let json = Decrypt s data
      in if json = [] then (False, s)
         else case Read json of
                Some (LIST items) \<Rightarrow>
                  (True, s\<lparr>events := import_loop indeterminate 0 items (events s)\<rparr>)
              | _ \<Rightarrow> (False, s))"

definition GetStorageSizeBytes :: "EncryptedStore \<Rightarrow> nat" where
  "GetStorageSizeBytes s = length (events s) * 200"

fun is_dict :: "Value \<Rightarrow> bool" where
  "is_dict (DICT d) = True"
| "is_dict _ = False"

definition exported_view ::
  "BrowsingEvent \<Rightarrow> BrowsingEventType \<times> string \<times> int \<times> real \<times> string \<times> string" where
  \<comment> \<open>An event as far as type, URL hash, scroll depth, element type and search query
      go, with its timestamp in whole milliseconds since the Unix epoch.\<close>
  "exported_view e =
     (type e, url_hash e, InMilliseconds (timestamp e - kTimeTToMicrosecondsOffset),
      scroll_depth e, element_type e, search_query e)"

definition reimported :: "BrowsingEvent \<Rightarrow> BrowsingEvent" where
  \<comment> \<open>What an event is after export and import: the timestamp and the duration have
      gone through a \<^verbatim>\<open>double\<close> of milliseconds, the referrer hash is gone.\<close>
  "reimported e =
     e\<lparr>timestamp := FromMillisecondsSinceUnixEpoch (InMillisecondsFSinceUnixEpoch (timestamp e)),
       duration := Milliseconds (round_to_double (real_of_int (InMilliseconds (duration e)))),
       referrer_hash := []\<rparr>"
section \<open>The privacy filter (privacy\_filter.cc)\<close>

text \<open>
  A \<^verbatim>\<open>GURL\<close> is seen through the three accessors the repository calls.  \<^verbatim>\<open>std::set\<close> of
  strings is a set; the loops over it only ask whether some element passes a test.
\<close>

record GURL =
  is_valid :: bool
  host :: string
  spec :: string

record PrivacyFilter =
  user_excluded_domains :: "string set"
  exclude_banking :: bool
  exclude_healthcare :: bool
  exclude_social_media :: bool

definition PrivacyFilter_init :: PrivacyFilter where
  "PrivacyFilter_init = \<lparr>user_excluded_domains = {}, exclude_banking = True,
                          exclude_healthcare = True, exclude_social_media = False\<rparr>"

definition kBankingDomains :: "string list" where
  "kBankingDomains =
     [''bank'', ''chase'', ''wellsfargo'', ''bankofamerica'', ''citi'', ''capitalone'',
      ''usbank'', ''pnc'', ''ally'', ''schwab'', ''fidelity'', ''vanguard'', ''etrade'',
      ''tdameritrade'', ''robinhood'', ''coinbase'', ''kraken'', ''binance'', ''paypal'',
      ''venmo'', ''zelle'', ''stripe'', ''square'']"

definition kHealthcareDomains :: "string list" where
  "kHealthcareDomains =
     [''health'', ''medical'', ''hospital'', ''clinic'', ''doctor'', ''patient'',
      ''pharmacy'', ''cvs'', ''walgreens'', ''medicare'', ''medicaid'', ''anthem'',
      ''bluecross'', ''aetna'', ''cigna'', ''unitedhealth'', ''kaiser'', ''webmd'',
      ''mayoclinic'', ''clevelandclinic'', ''zocdoc'']"

definition kSocialMediaDomains :: "string list" where
  "kSocialMediaDomains =
     [''facebook'', ''instagram'', ''twitter'', ''x.com'', ''tiktok'', ''snapchat'',
      ''linkedin'', ''reddit'', ''pinterest'', ''tumblr'', ''discord'', ''telegram'',
      ''whatsapp'', ''messenger'', ''threads'']"

definition is_upper_ascii :: "char \<Rightarrow> bool" where
  "is_upper_ascii c = (65 \<le> (of_char c :: nat) \<and> (of_char c :: nat) \<le> 90)"

definition is_lower_ascii :: "char \<Rightarrow> bool" where
  "is_lower_ascii c = (97 \<le> (of_char c :: nat) \<and> (of_char c :: nat) \<le> 122)"

definition is_digit :: "char \<Rightarrow> bool" where
  "is_digit c = (48 \<le> (of_char c :: nat) \<and> (of_char c :: nat) \<le> 57)"

definition isalpha :: "char \<Rightarrow> bool" where
  \<comment> \<open>\<^verbatim>\<open>std::isalpha\<close> in the "C" locale\<close>
  "isalpha c = (is_upper_ascii c \<or> is_lower_ascii c)"

definition to_lower_char :: "char \<Rightarrow> char" where
  "to_lower_char c = (if is_upper_ascii c then char_of ((of_char c :: nat) + 32) else c)"

definition ToLowerASCII :: "string \<Rightarrow> string" where
  "ToLowerASCII s = map to_lower_char s"

fun find_first :: "string \<Rightarrow> string \<Rightarrow> nat option" where
  \<comment> \<open>\<^verbatim>\<open>s.find(pattern)\<close>: the least index where \<open>pattern\<close> occurs in \<open>s\<close>; \<open>None\<close> is
      \<^verbatim>\<open>npos\<close>.\<close>
  "find_first pattern [] = (if pattern = [] then Some 0 else None)"
| "find_first pattern (c # cs) =
     (if prefix pattern (c # cs) then Some 0 else map_option Suc (find_first pattern cs))"

definition find_from :: "string \<Rightarrow> string \<Rightarrow> nat \<Rightarrow> nat option" where
  \<comment> \<open>\<^verbatim>\<open>s.find(pattern, pos)\<close>\<close>
  "find_from pattern s pos =
     (if pos > length s then None
      else map_option (\<lambda>i. i + pos) (find_first pattern (drop pos s)))"

fun matches_pattern_list :: "string list \<Rightarrow> string \<Rightarrow> bool" where
  \<comment> \<open>The loop shared by \<^verbatim>\<open>IsBankingSite\<close>, \<^verbatim>\<open>IsHealthcareSite\<close> and
      \<^verbatim>\<open>IsSocialMediaSite\<close>: return true at the first pattern found.\<close>
  "matches_pattern_list [] lower_domain = False"
| "matches_pattern_list (pattern # patterns) lower_domain =
     (if find_first pattern lower_domain \<noteq> None then True
      else matches_pattern_list patterns lower_domain)"

definition IsBankingSite :: "string \<Rightarrow> bool" where
  "IsBankingSite domain = matches_pattern_list kBankingDomains (ToLowerASCII domain)"

definition IsHealthcareSite :: "string \<Rightarrow> bool" where
  "IsHealthcareSite domain = matches_pattern_list kHealthcareDomains (ToLowerASCII domain)"

definition IsSocialMediaSite :: "string \<Rightarrow> bool" where
  "IsSocialMediaSite domain = matches_pattern_list kSocialMediaDomains (ToLowerASCII domain)"

definition IsCategoryExcluded :: "PrivacyFilter \<Rightarrow> string \<Rightarrow> bool" where
  "IsCategoryExcluded f domain =
     (if exclude_banking f \<and> IsBankingSite domain then True
      else if exclude_healthcare f \<and> IsHealthcareSite domain then True
      else if exclude_social_media f \<and> IsSocialMediaSite domain then True
      else False)"

definition IsUserExcluded :: "PrivacyFilter \<Rightarrow> string \<Rightarrow> bool" where
  \<comment> \<open>\<^verbatim>\<open>domain.compare(pos, len, suffix) == 0\<close> compares \<^verbatim>\<open>domain.substr(pos, len)\<close>
      with \<open>suffix\<close>; the guard on the lengths keeps \<open>pos\<close> from wrapping.\<close>
  "IsUserExcluded f domain =
     (if domain \<in> user_excluded_domains f then True
      else \<exists>excluded \<in> user_excluded_domains f.
             length domain > length excluded \<and>
             (let suffix = ''.'' @ excluded
              in take (length suffix) (drop (length domain - length suffix) domain) = suffix))"

definition IsExcluded :: "PrivacyFilter \<Rightarrow> GURL \<Rightarrow> bool" where
  "IsExcluded f url =
     (if \<not> is_valid url then True
      else let domain = host url
           in if IsUserExcluded f domain then True
              else if IsCategoryExcluded f domain then True
              else False)"

definition AddExcludedDomain :: "PrivacyFilter \<Rightarrow> string \<Rightarrow> PrivacyFilter" where
  "AddExcludedDomain f domain =
     f\<lparr>user_excluded_domains := insert (ToLowerASCII domain) (user_excluded_domains f)\<rparr>"

definition RemoveExcludedDomain :: "PrivacyFilter \<Rightarrow> string \<Rightarrow> PrivacyFilter" where
  "RemoveExcludedDomain f domain =
     f\<lparr>user_excluded_domains := user_excluded_domains f - {ToLowerASCII domain}\<rparr>"

fun leading_alpha :: "string \<Rightarrow> string" where
  \<comment> \<open>The loop of \<^verbatim>\<open>SanitizeElementSelector\<close>: collect characters up to the first
      one that is not a letter.\<close>
  "leading_alpha [] = []"
| "leading_alpha (c # cs) = (if isalpha c then c # leading_alpha cs else [])"

definition SanitizeElementSelector :: "string \<Rightarrow> string" where
  "SanitizeElementSelector selector =
     (let result = leading_alpha selector
      in if result = [] then ''unknown'' else ToLowerASCII result)"

definition enabled_keywords :: "PrivacyFilter \<Rightarrow> string set" where
  \<comment> \<open>The keywords of the category lists whose exclusion flag is on.\<close>
  "enabled_keywords f =
     (if exclude_banking f then set kBankingDomains else {})
     \<union> (if exclude_healthcare f then set kHealthcareDomains else {})
     \<union> (if exclude_social_media f then set kSocialMediaDomains else {})"

subsection \<open>Regular expressions\<close>

text \<open>
  \<^verbatim>\<open>SanitizeSearchQuery\<close> hands its five patterns to \<^verbatim>\<open>std::regex\<close> (ECMAScript grammar,
  \<^verbatim>\<open>icase\<close>) and \<^verbatim>\<open>std::regex_replace\<close>.  The patterns use character classes, \<^verbatim>\<open>\d\<close>,
  \<^verbatim>\<open>\b\<close>, the greedy quantifiers \<^verbatim>\<open>?\<close>, \<^verbatim>\<open>+\<close>, \<^verbatim>\<open>{n}\<close>, \<^verbatim>\<open>{n,}\<close> and one group; the
  model is a backtracking matcher for exactly these constructs.  A position in the
  subject is the character before it (if any) and the text from it on; matching a
  pattern at a position gives every position where a match can end, in the order in
  which backtracking tries them, so the head of the list is the match the engine
  reports.
\<close>

datatype class_item = Range char char | Lit char | Digit

datatype regex =
    Empty
  | Class "class_item list"
  | WordBoundary
  | Seq regex regex
  | Opt regex
  | Repeat nat regex
  | AtLeast nat regex

type_synonym position = "char option \<times> string"

definition in_range :: "char \<Rightarrow> char \<Rightarrow> char \<Rightarrow> bool" where
  "in_range lo hi c = ((of_char lo :: nat) \<le> of_char c \<and> (of_char c :: nat) \<le> of_char hi)"

definition to_upper_char :: "char \<Rightarrow> char" where
  "to_upper_char c = (if is_lower_ascii c then char_of ((of_char c :: nat) - 32) else c)"

fun item_matches :: "class_item \<Rightarrow> char \<Rightarrow> bool" where
  "item_matches (Range lo hi) c = in_range lo hi c"
| "item_matches (Lit l) c = (c = l)"
| "item_matches Digit c = is_digit c"

definition class_matches :: "class_item list \<Rightarrow> char \<Rightarrow> bool" where
  \<comment> \<open>Under \<^verbatim>\<open>icase\<close> a character is in a class when it or its other case is.\<close>
  "class_matches items c =
     list_ex (\<lambda>item. item_matches item c \<or> item_matches item (to_lower_char c)
                      \<or> item_matches item (to_upper_char c)) items"

definition is_word_char :: "char \<Rightarrow> bool" where
  "is_word_char c = (isalpha c \<or> is_digit c \<or> c = CHR ''_'')"

definition at_word_boundary :: "position \<Rightarrow> bool" where
  \<comment> \<open>\<^verbatim>\<open>\b\<close>: exactly one of the two neighbours is a word character; the ends of the
      subject count as non-word.\<close>
  "at_word_boundary pos =
     ((case fst pos of None \<Rightarrow> False | Some c \<Rightarrow> is_word_char c)
      \<noteq> (case snd pos of [] \<Rightarrow> False | c # _ \<Rightarrow> is_word_char c))"

primrec repeat_match :: "nat \<Rightarrow> (position \<Rightarrow> position list) \<Rightarrow> position \<Rightarrow> position list" where
  \<comment> \<open>\<open>n\<close> matches of \<open>step\<close>, one after the other\<close>
  "repeat_match 0 step pos = [pos]"
| "repeat_match (Suc n) step pos = concat (map (repeat_match n step) (step pos))"

primrec greedy_star :: "nat \<Rightarrow> (position \<Rightarrow> position list) \<Rightarrow> position \<Rightarrow> position list" where
  \<comment> \<open>As many matches of \<open>step\<close> as possible, fewer on backtracking.  Every iteration has
      to consume a character, so the length of the text bounds the iterations: the
      first argument is that bound.\<close>
  "greedy_star 0 step pos = [pos]"
| "greedy_star (Suc k) step pos =
     concat (map (\<lambda>pos'. if length (snd pos') < length (snd pos)
                          then greedy_star k step pos' else [])
                 (step pos))
     @ [pos]"

primrec match_at :: "regex \<Rightarrow> position \<Rightarrow> position list" where
  "match_at Empty pos = [pos]"
| "match_at (Class items) pos =
     (case snd pos of
        [] \<Rightarrow> []
      | c # cs \<Rightarrow> if class_matches items c then [(Some c, cs)] else [])"
| "match_at WordBoundary pos = (if at_word_boundary pos then [pos] else [])"
| "match_at (Seq a b) pos = concat (map (match_at b) (match_at a pos))"
| "match_at (Opt a) pos = match_at a pos @ [pos]"
| "match_at (Repeat n a) pos = repeat_match n (match_at a) pos"
| "match_at (AtLeast n a) pos =
     concat (map (\<lambda>pos'. greedy_star (length (snd pos')) (match_at a) pos')
                 (repeat_match n (match_at a) pos))"

definition kRedacted :: string where
  "kRedacted = ''[REDACTED]''"

definition reported_match :: "regex \<Rightarrow> position \<Rightarrow> position option" where
  \<comment> \<open>The match the engine reports at a position: the first one backtracking finds.
      No pattern of this file matches the empty string, so the step
      \<^verbatim>\<open>std::regex_replace\<close> takes after an empty match is not modelled: an empty
      match counts as none.\<close>
  "reported_match re pos =
     (case match_at re pos of
        [] \<Rightarrow> None
      | pos' # _ \<Rightarrow> if length (snd pos') < length (snd pos) then Some pos' else None)"

lemma reported_match_shorter:
  "reported_match re (prev, s) = Some (prev', s') \<Longrightarrow> length s' < length s"
  by (auto simp: reported_match_def split: list.splits if_splits)

function regex_replace_from :: "regex \<Rightarrow> char option \<Rightarrow> string \<Rightarrow> string" where
  \<comment> \<open>\<^verbatim>\<open>std::regex_replace(s, re, "[REDACTED]")\<close> from a position on: at the leftmost
      position where the pattern matches, the match is replaced and the scan goes on
      behind it; a character where no match starts is copied.\<close>
  "regex_replace_from re prev s =
     (case reported_match re (prev, s) of
        Some (prev', s') \<Rightarrow> kRedacted @ regex_replace_from re prev' s'
      | None \<Rightarrow> (case s of [] \<Rightarrow> [] | c # cs \<Rightarrow> c # regex_replace_from re (Some c) cs))"
  by pat_completeness auto
termination
  by (relation "measure (\<lambda>(re, prev, s). length s)") (auto dest: reported_match_shorter)

declare regex_replace_from.simps [simp del]

definition regex_replace :: "string \<Rightarrow> regex \<Rightarrow> string" where
  "regex_replace s re = regex_replace_from re None s"

definition sequence :: "regex list \<Rightarrow> regex" where
  "sequence rs = foldr Seq rs Empty"

definition digit :: regex where
  "digit = Class [Digit]"

definition kPiiPatterns :: "regex list" where
  \<comment> \<open>In the source's order: email, phone number, SSN, credit card, ZIP code.  The
      group of the last pattern is not referred to by the replacement text, so it is
      its content.\<close>
  "kPiiPatterns =
     [sequence [WordBoundary,
                AtLeast 1 (Class [Range CHR ''A'' CHR ''Z'', Range CHR ''a'' CHR ''z'',
                                  Range CHR ''0'' CHR ''9'', Lit CHR ''.'', Lit CHR ''_'',
                                  Lit CHR ''%'', Lit CHR ''+'', Lit CHR ''-'']),
                Class [Lit CHR ''@''],
                AtLeast 1 (Class [Range CHR ''A'' CHR ''Z'', Range CHR ''a'' CHR ''z'',
                                  Range CHR ''0'' CHR ''9'', Lit CHR ''.'', Lit CHR ''-'']),
                Class [Lit CHR ''.''],
                AtLeast 2 (Class [Range CHR ''A'' CHR ''Z'', Lit CHR ''|'',
                                  Range CHR ''a'' CHR ''z'']),
                WordBoundary],
      sequence [WordBoundary, Repeat 3 digit, Opt (Class [Lit CHR ''-'', Lit CHR ''.'']),
                Repeat 3 digit, Opt (Class [Lit CHR ''-'', Lit CHR ''.'']),
                Repeat 4 digit, WordBoundary],
      sequence [WordBoundary, Repeat 3 digit, Opt (Class [Lit CHR ''-'']),
                Repeat 2 digit, Opt (Class [Lit CHR ''-'']),
                Repeat 4 digit, WordBoundary],
      sequence [WordBoundary, Repeat 16 digit, WordBoundary],
      sequence [WordBoundary, Repeat 5 digit,
                Opt (sequence [Class [Lit CHR ''-''], Repeat 4 digit]), WordBoundary]]"

primrec accepted :: "regex \<Rightarrow> char \<Rightarrow> bool" where
  \<comment> \<open>The characters a match of a pattern can contain.\<close>
  "accepted Empty c = False"
| "accepted (Class items) c = class_matches items c"
| "accepted WordBoundary c = False"
| "accepted (Seq a b) c = (accepted a c \<or> accepted b c)"
| "accepted (Opt a) c = accepted a c"
| "accepted (Repeat n a) c = accepted a c"
| "accepted (AtLeast n a) c = accepted a c"

definition consumes :: "(char \<Rightarrow> bool) \<Rightarrow> position \<Rightarrow> position \<Rightarrow> bool" where
  \<comment> \<open>The second position is reached from the first by reading characters that all
      satisfy the test.\<close>
  "consumes ok pos pos' = (\<exists>m. snd pos = m @ snd pos' \<and> list_all ok m)"

primrec min_length :: "regex \<Rightarrow> nat" where
  \<comment> \<open>A lower bound on the number of characters a match of a pattern reads.\<close>
  "min_length Empty = 0"
| "min_length (Class items) = 1"
| "min_length WordBoundary = 0"
| "min_length (Seq a b) = min_length a + min_length b"
| "min_length (Opt a) = 0"
| "min_length (Repeat n a) = n * min_length a"
| "min_length (AtLeast n a) = n * min_length a"

subsection \<open>Sanitizing a search query\<close>

lemma find_first_bounds:
  "find_first pattern s = Some i \<Longrightarrow> i + length pattern \<le> length s"
proof (induction s arbitrary: i)
  case Nil
  then show ?case by (simp split: if_splits)
next
  case (Cons c cs)
  show ?case
  proof (cases "prefix pattern (c # cs)")
    case True
    with Cons.prems show ?thesis by (auto dest: prefix_length_le)
  next
    case False
    with Cons.prems obtain j where "find_first pattern cs = Some j" and "i = Suc j" by auto
    with Cons.IH show ?thesis by fastforce
  qed
qed

lemma find_from_bounds:
  "find_from pattern s pos = Some i \<Longrightarrow> pos \<le> i \<and> i + length pattern \<le> length s"
  by (auto simp: find_from_def split: if_splits dest!: find_first_bounds)

function count_redacted :: "string \<Rightarrow> nat \<Rightarrow> nat \<Rightarrow> nat" where
  \<comment> \<open>The \<^verbatim>\<open>while\<close> loop of \<^verbatim>\<open>SanitizeSearchQuery\<close>: find the next marker from \<open>pos\<close>,
      count it, go on ten characters behind its start.\<close>
  "count_redacted result pos redacted_count =
     (case find_from kRedacted result pos of
        None \<Rightarrow> redacted_count
      | Some found \<Rightarrow> count_redacted result (found + 10) (redacted_count + 1))"
  by pat_completeness auto
termination
proof (relation "measure (\<lambda>(result, pos, redacted_count). Suc (length result) - pos)")
  show "wf (measure (\<lambda>(result, pos, redacted_count). Suc (length result) - pos))" by simp
next
  fix result :: string and pos redacted_count found :: nat
  assume "find_from kRedacted result pos = Some found"
  then have "pos \<le> found \<and> found + length kRedacted \<le> length result"
    by (rule find_from_bounds)
  moreover have "length kRedacted = 10"
    by (simp add: kRedacted_def)
  ultimately have "Suc (length result) - (found + 10) < Suc (length result) - pos"
    by arith
  then show "((result, found + 10, redacted_count + 1), (result, pos, redacted_count))
           \<in> measure (\<lambda>(result, pos, redacted_count). Suc (length result) - pos)"
    by simp
qed

declare count_redacted.simps [simp del]

definition SanitizeSearchQuery :: "string \<Rightarrow> string" where
  "SanitizeSearchQuery query =
     (let result = fold (\<lambda>pattern result. regex_replace result pattern) kPiiPatterns query
      in if find_first kRedacted result \<noteq> None
         then (if count_redacted result 0 0 > 2 then [] else result)
         else result)"

fun occurrences :: "string \<Rightarrow> string \<Rightarrow> nat" where
  \<comment> \<open>The number of positions of a text at which a given word stands.\<close>
  "occurrences w [] = 0"
| "occurrences w (c # cs) = (if prefix w (c # cs) then 1 else 0) + occurrences w cs"

function match_count :: "regex \<Rightarrow> char option \<Rightarrow> string \<Rightarrow> nat" where
  \<comment> \<open>The number of matches \<open>regex_replace_from\<close> replaces: the same scan, counting.\<close>
  "match_count re prev s =
     (case reported_match re (prev, s) of
        Some (prev', s') \<Rightarrow> Suc (match_count re prev' s')
      | None \<Rightarrow> (case s of [] \<Rightarrow> 0 | c # cs \<Rightarrow> match_count re (Some c) cs))"
  by pat_completeness auto
termination
  by (relation "measure (\<lambda>(re, prev, s). length s)") (auto dest: reported_match_shorter)

declare match_count.simps [simp del]

definition email_pattern :: regex where "email_pattern = kPiiPatterns ! 0"
definition phone_pattern :: regex where "phone_pattern = kPiiPatterns ! 1"
definition ssn_pattern :: regex where "ssn_pattern = kPiiPatterns ! 2"
definition card_pattern :: regex where "card_pattern = kPiiPatterns ! 3"
definition zip_pattern :: regex where "zip_pattern = kPiiPatterns ! 4"

section \<open>The intent analyzer (intent\_analyzer.cc, qwen\_client.cc)\<close>

datatype IntentType =
  PURCHASE_INTENT | RESEARCH_INTENT | COMPARISON_INTENT | ENGAGEMENT_INTENT | NAVIGATION_INTENT

datatype ConfidenceLevel = LOW | MEDIUM | HIGH

text \<open>
  The field \<^verbatim>\<open>type\<close> of \<^verbatim>\<open>IntentSignal\<close> is called \<open>intent_type\<close> here: an event has a
  field \<open>type\<close> already.
\<close>

record IntentSignal =
  intent_type :: IntentType
  confidence :: ConfidenceLevel
  confidence_score :: real
  category :: string
  detected_at :: Time
  time_window :: TimeDelta
  event_count :: int

definition IntentSignal_default :: "IntentType \<times> ConfidenceLevel \<times> real \<Rightarrow> IntentSignal" where
  \<comment> \<open>\<^verbatim>\<open>IntentSignal signal;\<close>  Default initialization leaves \<^verbatim>\<open>type\<close>, \<^verbatim>\<open>confidence\<close> and
      \<^verbatim>\<open>confidence_score\<close> without a value; the argument stands for what the storage
      holds.\<close>
  "IntentSignal_default indeterminate =
     \<lparr>intent_type = fst indeterminate, confidence = fst (snd indeterminate),
      confidence_score = snd (snd indeterminate), category = [], detected_at = 0,
      time_window = 0, event_count = 0\<rparr>"

record IntentAnalyzer =
  model_handle :: nat
  is_ready :: bool
  cached_intents :: "IntentSignal list"
  min_confidence :: real
  analysis_interval :: TimeDelta

definition IntentAnalyzer_init :: IntentAnalyzer where
  \<comment> \<open>The handle \<open>0\<close> is \<^verbatim>\<open>nullptr\<close>; five minutes are 300,000,000 microseconds.\<close>
  "IntentAnalyzer_init =
     \<lparr>model_handle = 0, is_ready = False, cached_intents = [], min_confidence = 0.5,
      analysis_interval = 300000000\<rparr>"

definition IntentAnalyzer_Initialize ::
  "(string \<Rightarrow> nat) \<Rightarrow> IntentAnalyzer \<Rightarrow> string \<Rightarrow> bool \<times> IntentAnalyzer" where
  \<comment> \<open>\<^verbatim>\<open>IntentAnalyzer::Initialize\<close>; \<open>LoadModel\<close> is the model runtime's loader.\<close>
  "IntentAnalyzer_Initialize LoadModel a model_path =
     (let a = a\<lparr>model_handle := LoadModel model_path\<rparr>
      in if model_handle a = 0 then (False, a) else (True, a\<lparr>is_ready := True\<rparr>))"

definition IsReady :: "IntentAnalyzer \<Rightarrow> bool" where
  "IsReady a = (is_ready a \<and> model_handle a \<noteq> 0)"

definition SetMinConfidence :: "IntentAnalyzer \<Rightarrow> real \<Rightarrow> IntentAnalyzer" where
  \<comment> \<open>\<^verbatim>\<open>std::clamp(threshold, 0.0, 1.0)\<close>\<close>
  "SetMinConfidence a threshold =
     a\<lparr>min_confidence := (if threshold < 0 then 0 else if 1 < threshold then 1 else threshold)\<rparr>"

definition GetLatestIntents :: "IntentAnalyzer \<Rightarrow> IntentSignal list" where
  "GetLatestIntents a = cached_intents a"

definition ClearIntents :: "IntentAnalyzer \<Rightarrow> IntentAnalyzer" where
  "ClearIntents a = a\<lparr>cached_intents := []\<rparr>"

definition RunInference :: "(nat \<Rightarrow> string \<Rightarrow> string) \<Rightarrow> IntentAnalyzer \<Rightarrow> string \<Rightarrow> string" where
  \<comment> \<open>\<open>Infer\<close> is \<^verbatim>\<open>QwenClient::Infer\<close>, the model runtime.\<close>
  "RunInference Infer a prompt =
     (if model_handle a = 0 then ''[]'' else Infer (model_handle a) prompt)"

definition QwenClient_Infer :: "nat \<Rightarrow> string \<Rightarrow> string" where
  \<comment> \<open>The runtime in the repository is a placeholder that answers every prompt with one
      sample text.\<close>
  \<open>QwenClient_Infer handle prompt =
     (if handle = 0 then ''[]''
      else ''[\<newline>    {"type": "RESEARCH_INTENT", "confidence": 0.75, "category": "technology"},\<newline>    {"type": "COMPARISON_INTENT", "confidence": 0.60, "category": "electronics"}\<newline>  ]'')\<close>

definition parse_signal :: "IntentType \<times> ConfidenceLevel \<times> real \<Rightarrow> Time \<Rightarrow> Dict \<Rightarrow> IntentSignal" where
  \<comment> \<open>The loop body of \<^verbatim>\<open>ParseResponse\<close> for a record; \<open>now\<close> is what
      \<^verbatim>\<open>base::Time::Now()\<close> returns there.  The literals \<^verbatim>\<open>0.4\<close> and \<^verbatim>\<open>0.7\<close> are the
      doubles nearest to the two decimals.\<close>
  "parse_signal indeterminate now dict =
     (let signal = IntentSignal_default indeterminate;
          signal = signal\<lparr>detected_at := now\<rparr>;
          signal = (case FindString dict ''type'' of
                      Some t \<Rightarrow>
                        if t = ''PURCHASE_INTENT'' then signal\<lparr>intent_type := PURCHASE_INTENT\<rparr>
                        else if t = ''RESEARCH_INTENT'' then signal\<lparr>intent_type := RESEARCH_INTENT\<rparr>
                        else if t = ''COMPARISON_INTENT'' then signal\<lparr>intent_type := COMPARISON_INTENT\<rparr>
                        else if t = ''ENGAGEMENT_INTENT'' then signal\<lparr>intent_type := ENGAGEMENT_INTENT\<rparr>
                        else signal\<lparr>intent_type := NAVIGATION_INTENT\<rparr>
                    | None \<Rightarrow> signal);
          signal = (case FindDouble dict ''confidence'' of
                      Some c \<Rightarrow>
                        (let signal = signal\<lparr>confidence_score := c\<rparr>
                         in if c < round_to_double 0.4 then signal\<lparr>confidence := LOW\<rparr>
                            else if c < round_to_double 0.7 then signal\<lparr>confidence := MEDIUM\<rparr>
                            else signal\<lparr>confidence := HIGH\<rparr>)
                    | None \<Rightarrow> signal);
          signal = (case FindString dict ''category'' of
                      Some cat \<Rightarrow> signal\<lparr>category := cat\<rparr> | None \<Rightarrow> signal)
      in signal)"

fun parse_loop ::
  "(nat \<Rightarrow> IntentType \<times> ConfidenceLevel \<times> real) \<Rightarrow> (nat \<Rightarrow> Time) \<Rightarrow> nat \<Rightarrow> Value list
     \<Rightarrow> IntentSignal list \<Rightarrow> IntentSignal list" where
  \<comment> \<open>The \<^verbatim>\<open>for\<close> loop of \<^verbatim>\<open>ParseResponse\<close>; \<open>indeterminate k\<close> and \<open>now k\<close> are the
      unassigned fields and the clock of iteration \<open>k\<close>.\<close>
  "parse_loop indeterminate now k [] signals = signals"
| "parse_loop indeterminate now k (DICT dict # items) signals =
     parse_loop indeterminate now (Suc k) items
       (signals @ [parse_signal (indeterminate k) (now k) dict])"
| "parse_loop indeterminate now k (_ # items) signals =
     parse_loop indeterminate now (Suc k) items signals"

definition ParseResponse ::
  "(string \<Rightarrow> Value option) \<Rightarrow> (nat \<Rightarrow> IntentType \<times> ConfidenceLevel \<times> real) \<Rightarrow> (nat \<Rightarrow> Time)
     \<Rightarrow> string \<Rightarrow> IntentSignal list" where
  "ParseResponse Read indeterminate now response =
     (case Read response of
        Some (LIST items) \<Rightarrow> parse_loop indeterminate now 0 items []
      | _ \<Rightarrow> [])"

definition AnalyzeEvents ::
  "(BrowsingEvent list \<Rightarrow> string) \<Rightarrow> (nat \<Rightarrow> string \<Rightarrow> string) \<Rightarrow> (string \<Rightarrow> Value option)
     \<Rightarrow> (nat \<Rightarrow> IntentType \<times> ConfidenceLevel \<times> real) \<Rightarrow> (nat \<Rightarrow> Time)
     \<Rightarrow> IntentAnalyzer \<Rightarrow> BrowsingEvent list \<Rightarrow> IntentSignal list \<times> IntentAnalyzer" where
  \<comment> \<open>\<open>BuildPrompt\<close> formats the events with \<^verbatim>\<open>StringPrintf\<close>; its text only feeds the
      model runtime, and both are parameters.\<close>
  "AnalyzeEvents BuildPrompt Infer Read indeterminate now a evs =
     (if \<not> IsReady a then ([], a)
      else if evs = [] then ([], a)
      else let prompt = BuildPrompt evs;
               response = RunInference Infer a prompt;
               signals = ParseResponse Read indeterminate now response;
               filtered = filter (\<lambda>signal. confidence_score signal \<ge> min_confidence a) signals
           in (filtered, a\<lparr>cached_intents := filtered\<rparr>))"

definition AnalyzeTimeWindow ::
  "(BrowsingEvent list \<Rightarrow> string) \<Rightarrow> (nat \<Rightarrow> string \<Rightarrow> string) \<Rightarrow> (string \<Rightarrow> Value option)
     \<Rightarrow> (nat \<Rightarrow> IntentType \<times> ConfidenceLevel \<times> real) \<Rightarrow> (nat \<Rightarrow> Time) \<Rightarrow> Time
     \<Rightarrow> IntentAnalyzer \<Rightarrow> BrowsingEvent list \<Rightarrow> TimeDelta \<Rightarrow> IntentSignal list \<times> IntentAnalyzer" where
  "AnalyzeTimeWindow BuildPrompt Infer Read indeterminate now current_time a evs window =
     (let cutoff = current_time - window;
          windowed = filter (\<lambda>event. timestamp event \<ge> cutoff) evs
      in AnalyzeEvents BuildPrompt Infer Read indeterminate now a windowed)"

section \<open>The collector (browsing\_data\_collector.cc)\<close>

text \<open>
  A \<^verbatim>\<open>content::WebContents*\<close> is \<open>None\<close> for \<^verbatim>\<open>nullptr\<close>, and otherwise says whether its
  browser context is off the record.  \<^verbatim>\<open>base::SHA1HashString\<close> and the clock are
  parameters of the hooks.
\<close>

record BrowsingDataCollector =
  privacy_filter :: PrivacyFilter
  local_store :: EncryptedStore
  current_scroll_depth :: real
  collection_enabled :: bool

definition BrowsingDataCollector_init :: BrowsingDataCollector where
  "BrowsingDataCollector_init =
     \<lparr>privacy_filter = PrivacyFilter_init, local_store = EncryptedStore_init,
      current_scroll_depth = 0, collection_enabled = True\<rparr>"

definition IsCollectionEnabled :: "BrowsingDataCollector \<Rightarrow> bool" where
  "IsCollectionEnabled c = collection_enabled c"

definition SetCollectionEnabled :: "BrowsingDataCollector \<Rightarrow> bool \<Rightarrow> BrowsingDataCollector" where
  "SetCollectionEnabled c enabled = c\<lparr>collection_enabled := enabled\<rparr>"

definition IsIncognito :: "bool option \<Rightarrow> bool" where
  "IsIncognito contents = (case contents of None \<Rightarrow> False | Some off_the_record \<Rightarrow> off_the_record)"

definition IsExcludedSite :: "BrowsingDataCollector \<Rightarrow> GURL \<Rightarrow> bool" where
  "IsExcludedSite c url = IsExcluded (privacy_filter c) url"

definition hex_digit :: "nat \<Rightarrow> char" where
  "hex_digit n = ''0123456789abcdef'' ! (n mod 16)"

definition HashUrl :: "(string \<Rightarrow> string) \<Rightarrow> GURL \<Rightarrow> string" where
  \<comment> \<open>Every byte of the digest printed with \<^verbatim>\<open>%02x\<close>.\<close>
  "HashUrl SHA1HashString url =
     concat (map (\<lambda>c. [hex_digit ((of_char c :: nat) div 16), hex_digit ((of_char c :: nat) mod 16)])
                 (SHA1HashString (spec url)))"

definition OnPageLoad ::
  "(string \<Rightarrow> string) \<Rightarrow> Time \<Rightarrow> BrowsingDataCollector \<Rightarrow> GURL \<Rightarrow> bool option
     \<Rightarrow> BrowsingDataCollector" where
  "OnPageLoad SHA1HashString now c url contents =
     (if IsIncognito contents then c
      else if \<not> IsCollectionEnabled c then c
      else if IsExcludedSite c url then c
      else let event = BrowsingEvent_init PAGE_LOAD (HashUrl SHA1HashString url) now
           in c\<lparr>local_store := StoreEvent (local_store c) event, current_scroll_depth := 0\<rparr>)"

definition OnPageUnload ::
  "(string \<Rightarrow> string) \<Rightarrow> Time \<Rightarrow> BrowsingDataCollector \<Rightarrow> GURL \<Rightarrow> TimeDelta
     \<Rightarrow> BrowsingDataCollector" where
  "OnPageUnload SHA1HashString now c url time_on_page =
     (if \<not> IsCollectionEnabled c then c
      else let event = BrowsingEvent_init PAGE_UNLOAD (HashUrl SHA1HashString url) now;
               event = event\<lparr>duration := time_on_page\<rparr>;
               event = event\<lparr>scroll_depth := current_scroll_depth c\<rparr>
           in c\<lparr>local_store := StoreEvent (local_store c) event\<rparr>)"

definition OnScroll :: "BrowsingDataCollector \<Rightarrow> real \<Rightarrow> BrowsingDataCollector" where
  "OnScroll c depth_percentage =
     (if \<not> IsCollectionEnabled c then c
      else if depth_percentage > current_scroll_depth c
           then c\<lparr>current_scroll_depth := depth_percentage\<rparr>
           else c)"

definition OnClick :: "Time \<Rightarrow> BrowsingDataCollector \<Rightarrow> string \<Rightarrow> BrowsingDataCollector" where
  \<comment> \<open>The default-constructed event gets its \<^verbatim>\<open>type\<close> assigned at once, here and in the
      two hooks below.\<close>
  "OnClick now c element_selector =
     (if \<not> IsCollectionEnabled c then c
      else let event = BrowsingEvent_default CLICK;
               event = event\<lparr>timestamp := now\<rparr>;
               event = event\<lparr>element_type := SanitizeElementSelector element_selector\<rparr>
           in c\<lparr>local_store := StoreEvent (local_store c) event\<rparr>)"

definition OnSearchQuery :: "Time \<Rightarrow> BrowsingDataCollector \<Rightarrow> string \<Rightarrow> BrowsingDataCollector" where
  "OnSearchQuery now c query =
     (if \<not> IsCollectionEnabled c then c
      else let sanitized = SanitizeSearchQuery query
           in if sanitized = [] then c
              else let event = BrowsingEvent_default SEARCH_QUERY;
                       event = event\<lparr>timestamp := now\<rparr>;
                       event = event\<lparr>search_query := sanitized\<rparr>
                   in c\<lparr>local_store := StoreEvent (local_store c) event\<rparr>)"

fun has_sensitive_field :: "string list \<Rightarrow> bool" where
  \<comment> \<open>The loop of \<^verbatim>\<open>OnFormSubmit\<close>, which returns at the first sensitive field type.\<close>
  "has_sensitive_field [] = False"
| "has_sensitive_field (t # field_types) =
     (if t = ''password'' \<or> t = ''credit-card'' then True else has_sensitive_field field_types)"

definition OnFormSubmit :: "Time \<Rightarrow> BrowsingDataCollector \<Rightarrow> string list \<Rightarrow> BrowsingDataCollector" where
  "OnFormSubmit now c field_types =
     (if \<not> IsCollectionEnabled c then c
      else if has_sensitive_field field_types then c
      else let event = BrowsingEvent_default FORM_SUBMIT;
               event = event\<lparr>timestamp := now\<rparr>
           in c\<lparr>local_store := StoreEvent (local_store c) event\<rparr>)"

definition GetCollectedEvents :: "BrowsingDataCollector \<Rightarrow> BrowsingEvent list" where
  "GetCollectedEvents c = GetAllEvents (local_store c)"

definition ClearAllData :: "BrowsingDataCollector \<Rightarrow> BrowsingDataCollector" where
  "ClearAllData c = c\<lparr>local_store := ClearAll (local_store c), current_scroll_depth := 0\<rparr>"

section \<open>Concrete inputs\<close>

text \<open>Stores, blobs and codecs at which the theorems below are instantiated.\<close>

definition sample_event :: BrowsingEvent where
  "sample_event = (BrowsingEvent_init PAGE_UNLOAD ''ab12'' (kTimeTToMicrosecondsOffset + 1500))
                    \<lparr>duration := 2500, scroll_depth := 1 / 2, referrer_hash := ''cd34''\<rparr>"

definition sample_store :: EncryptedStore where
  "sample_store = \<lparr>events = [sample_event], encryption_key = ''0123456789abcdef'',
                    storage_path = ''pat_browsing_data.enc''\<rparr>"

definition sample_writer :: "Value \<Rightarrow> string" where
  "sample_writer v = ''[{sample_event}]''"

definition sample_reader :: "string \<Rightarrow> Value option" where
  "sample_reader json = (if json = ''[{sample_event}]''
                         then Some (LIST [DICT (event_dict sample_event)]) else None)"

definition full_store :: "BrowsingEvent \<Rightarrow> EncryptedStore" where
  "full_store e = \<lparr>events = replicate kMaxCachedEvents e, encryption_key = ''0123456789abcdef'',
                   storage_path = ''pat_browsing_data.enc''\<rparr>"

definition one_record_reader :: "string \<Rightarrow> Value option" where
  "one_record_reader json = (if json = ''[{}]'' then Some (LIST [DICT []]) else None)"

definition keyed_store :: "BrowsingEvent list \<Rightarrow> EncryptedStore" where
  "keyed_store es = \<lparr>events = es, encryption_key = ''0123456789abcdef'',
                     storage_path = ''pat_browsing_data.enc''\<rparr>"

definition fractional_event :: BrowsingEvent where
  \<comment> \<open>An event 1001 microseconds after the Unix epoch.\<close>
  "fractional_event = sample_event\<lparr>timestamp := kTimeTToMicrosecondsOffset + 1001\<rparr>"

definition null_time_event :: BrowsingEvent where
  \<comment> \<open>An event whose timestamp is the null time of a default-constructed
      \<^verbatim>\<open>base::Time\<close>.\<close>
  "null_time_event = BrowsingEvent_init PAGE_LOAD ''ab12'' 0"

definition one_event_writer :: "Value \<Rightarrow> string" where
  "one_event_writer v = ''[{event}]''"

definition one_event_reader :: "BrowsingEvent \<Rightarrow> string \<Rightarrow> Value option" where
  \<comment> \<open>A reader that knows one text, the list of the record of one event.\<close>
  "one_event_reader e json =
     (if json = ''[{event}]'' then Some (LIST [DICT (event_dict e)]) else None)"
definition sample_filter :: PrivacyFilter where
  "sample_filter = AddExcludedDomain PrivacyFilter_init ''Example.com''"

definition url_of_host :: "string \<Rightarrow> GURL" where
  "url_of_host h = \<lparr>is_valid = True, host = h, spec = ''https://'' @ h @ ''/''\<rparr>"

definition invalid_url :: GURL where
  "invalid_url = \<lparr>is_valid = False, host = [], spec = []\<rparr>"

definition bare_record_response :: string where
  "bare_record_response = ''[{type: PURCHASE_INTENT, category: shoes}]''"

definition bare_record_reader :: "string \<Rightarrow> Value option" where
  \<comment> \<open>A reader that knows one text: a list of one record that has a type and a category
      and no confidence.\<close>
  "bare_record_reader json =
     (if json = bare_record_response
      then Some (LIST [DICT [(''category'', STRING ''shoes''), (''type'', STRING ''PURCHASE_INTENT'')]])
      else None)"

definition ready_analyzer :: IntentAnalyzer where
  "ready_analyzer = IntentAnalyzer_init\<lparr>model_handle := 1, is_ready := True\<rparr>"

definition scored_response :: string where
  "scored_response = ''[0.39, 0.40, 0.69, 0.70]''"

definition scored_reader :: "string \<Rightarrow> Value option" where
  \<comment> \<open>A reader that knows one text: four records with the confidences of the name,
      each the double nearest to the decimal.\<close>
  "scored_reader json =
     (if json = scored_response
      then Some (LIST [DICT [(''confidence'', DOUBLE (round_to_double 0.39))],
                       DICT [(''confidence'', DOUBLE (round_to_double 0.4))],
                       DICT [(''confidence'', DOUBLE (round_to_double 0.69))],
                       DICT [(''confidence'', DOUBLE (round_to_double 0.7))]])
      else None)"

definition bare_record_signal :: "IntentType \<times> ConfidenceLevel \<times> real \<Rightarrow> Time \<Rightarrow> IntentSignal" where
  \<comment> \<open>What the one record of \<open>bare_record_response\<close> is parsed to.\<close>
  "bare_record_signal indeterminate now =
     \<lparr>intent_type = PURCHASE_INTENT, confidence = fst (snd indeterminate),
      confidence_score = snd (snd indeterminate), category = ''shoes'', detected_at = now,
      time_window = 0, event_count = 0\<rparr>"

section \<open>Facts about doubles and times\<close>

text \<open>
  \<open>round_to_double\<close> is within half a unit in the last place of its argument, which is a
  relative error of at most \<open>1 / 2 ^ 53\<close>, and it keeps every integer below \<open>2 ^ 53\<close>.
\<close>

lemma round_half_even_close: "\<bar>real_of_int (round_half_even y) - y\<bar> \<le> 1 / 2"
  unfolding round_half_even_def Let_def by (simp add: abs_if) linarith

lemma round_half_even_of_int [simp]: "round_half_even (real_of_int k) = k"
  by (simp add: round_half_even_def)

lemma halvings_bounds:
  "1 \<le> y \<Longrightarrow> 2 ^ halvings y \<le> y \<and> y < 2 * 2 ^ halvings y"
proof (induction y rule: halvings.induct)
  case (1 y)
  show ?case
  proof (cases "y < 2")
    case True
    then show ?thesis using "1.prems" by (simp add: halvings.simps [of y])
  next
    case False
    then have "1 \<le> y / 2" by simp
    from "1.IH" [OF False this] show ?thesis
      using False by (simp add: halvings.simps [of y])
  qed
qed

lemma doublings_bounds:
  "0 < y \<Longrightarrow> y < 1 \<Longrightarrow> 1 \<le> 2 ^ doublings y * y \<and> 2 ^ doublings y * y < 2"
proof (induction y rule: doublings.induct)
  case (1 y)
  have guard: "\<not> (y \<le> 0 \<or> 1 \<le> y)" using "1.prems" by simp
  show ?case
  proof (cases "2 * y < 1")
    case True
    from "1.IH" [OF guard _ True] "1.prems" show ?thesis
      by (simp add: doublings.simps [of y] mult.assoc)
  next
    case False
    then have "doublings (2 * y) = 0" by (simp add: doublings.simps [of "2 * y"])
    then show ?thesis using False "1.prems" by (simp add: doublings.simps [of y])
  qed
qed

lemma binade_bounds:
  assumes "x \<noteq> 0"
  shows "2 powi binade x \<le> \<bar>x\<bar>" and "\<bar>x\<bar> < 2 powi (binade x + 1)"
proof -
  have "2 powi binade x \<le> \<bar>x\<bar> \<and> \<bar>x\<bar> < 2 powi (binade x + 1)"
  proof (cases "1 \<le> \<bar>x\<bar>")
    case True
    then have b: "binade x = int (halvings \<bar>x\<bar>)" by (simp add: binade_def)
    have "(2::real) powi (int (halvings \<bar>x\<bar>) + 1) = 2 * 2 ^ halvings \<bar>x\<bar>"
      by (simp add: power_int_add power_int_of_nat)
    then show ?thesis using halvings_bounds [OF True] by (simp add: b power_int_of_nat)
  next
    case False
    then have b: "binade x = - int (doublings \<bar>x\<bar>)" by (simp add: binade_def)
    have pos: "0 < \<bar>x\<bar>" "\<bar>x\<bar> < 1" using assms False by simp_all
    define n where "n = doublings \<bar>x\<bar>"
    have n: "1 \<le> 2 ^ n * \<bar>x\<bar>" "2 ^ n * \<bar>x\<bar> < 2"
      using doublings_bounds [OF pos] by (simp_all add: n_def)
    have p1: "(2::real) powi (- int n) = 1 / 2 ^ n"
      by (simp add: power_int_minus_divide power_int_of_nat)
    have p2: "(2::real) powi (- int n + 1) = 2 / 2 ^ n"
      by (simp add: power_int_diff power_int_of_nat)
    have "1 / 2 ^ n \<le> \<bar>x\<bar>" using n(1) by (simp add: field_simps)
    moreover have "\<bar>x\<bar> < 2 / 2 ^ n" using n(2) by (simp add: field_simps)
    ultimately show ?thesis unfolding b n_def [symmetric] p1 p2 by simp
  qed
  then show "2 powi binade x \<le> \<bar>x\<bar>" and "\<bar>x\<bar> < 2 powi (binade x + 1)" by simp_all
qed

lemma binade_eqI:
  assumes "2 powi e \<le> \<bar>x\<bar>" and "\<bar>x\<bar> < 2 powi (e + 1)"
  shows "binade x = e"
proof -
  have "0 < (2::real) powi e" by (simp add: zero_less_power_int)
  with assms(1) have "0 < \<bar>x\<bar>" by linarith
  then have x: "x \<noteq> 0" by simp
  have "(2::real) powi e < 2 powi (binade x + 1)"
    using assms(1) binade_bounds(2) [OF x] by linarith
  then have "e < binade x + 1"
    by (smt (verit) power_int_increasing)
  moreover have "(2::real) powi binade x < 2 powi (e + 1)"
    using assms(2) binade_bounds(1) [OF x] by linarith
  then have "binade x < e + 1"
    by (smt (verit) power_int_increasing)
  ultimately show ?thesis by simp
qed

lemma round_to_double_zero [simp]: "round_to_double 0 = 0"
  using round_half_even_of_int [of 0] by (simp add: round_to_double_def)

lemma round_to_double_error: "\<bar>round_to_double x - x\<bar> \<le> \<bar>x\<bar> / 2 ^ 53"
proof (cases "x = 0")
  case True
  then show ?thesis by simp
next
  case False
  define u where "u = (2::real) powi (binade x - 52)"
  have u: "0 < u" by (simp add: u_def zero_less_power_int)
  have "round_to_double x - x = (real_of_int (round_half_even (x / u)) - x / u) * u"
    using u by (simp add: round_to_double_def u_def [symmetric] Let_def algebra_simps)
  then have "\<bar>round_to_double x - x\<bar> = \<bar>real_of_int (round_half_even (x / u)) - x / u\<bar> * u"
    using u by (simp add: abs_mult)
  also have "\<dots> \<le> 1 / 2 * u"
    using round_half_even_close [of "x / u"] u by (intro mult_right_mono) simp_all
  also have "1 / 2 * u = 2 powi binade x / 2 ^ 53"
  proof -
    have "u = 2 powi binade x / 2 powi 52"
      unfolding u_def by (simp add: power_int_diff)
    then show ?thesis by simp
  qed
  also have "\<dots> \<le> \<bar>x\<bar> / 2 ^ 53"
    using binade_bounds(1) [OF False] by (simp add: divide_right_mono)
  finally show ?thesis .
qed

lemma round_to_double_of_int:
  assumes "\<bar>k\<bar> < 2 ^ 53"
  shows "round_to_double (real_of_int k) = real_of_int k"
proof (cases "k = 0")
  case True
  then show ?thesis by simp
next
  case False
  define b where "b = binade (real_of_int k)"
  have kne: "real_of_int k \<noteq> 0" using False by simp
  have "real_of_int \<bar>k\<bar> < real_of_int (2 ^ 53)" using assms by (simp only: of_int_less_iff)
  then have "\<bar>real_of_int k\<bar> < 2 powi 53" by simp
  with binade_bounds(1) [OF kne] have "(2::real) powi b < 2 powi 53"
    unfolding b_def by linarith
  then have b53: "b < 53" by (smt (verit) power_int_increasing)
  define n where "n = nat (52 - b)"
  have n: "b - 52 = - int n" using b53 by (simp add: n_def)
  have u: "(2::real) powi (b - 52) = 1 / 2 ^ n"
    unfolding n by (simp add: power_int_minus_divide power_int_of_nat)
  have "real_of_int k / (1 / 2 ^ n) = real_of_int (k * 2 ^ n)" by simp
  then have "round_half_even (real_of_int k / (1 / 2 ^ n)) = k * 2 ^ n"
    by (simp only: round_half_even_of_int)
  then show ?thesis
    by (simp add: round_to_double_def b_def [symmetric] u Let_def)
qed

lemma round_half_even_eqI:
  "\<bar>real_of_int k - y\<bar> < 1 / 2 \<Longrightarrow> round_half_even y = k"
  unfolding round_half_even_def Let_def by (simp add: abs_if split: if_splits) linarith+

lemma round_to_double_eqI:
  assumes "2 powi e \<le> \<bar>x\<bar>" and "\<bar>x\<bar> < 2 powi (e + 1)"
    and "\<bar>real_of_int k - x / 2 powi (e - 52)\<bar> < 1 / 2"
  shows "round_to_double x = real_of_int k * 2 powi (e - 52)"
  using binade_eqI [OF assms(1,2)] round_half_even_eqI [OF assms(3)]
  by (simp add: round_to_double_def)

lemma double_0_39: "round_to_double 0.39 = 3512807709348987 / 9007199254740992"
proof -
  have "round_to_double 0.39 = real_of_int 7025615418697974 * 2 powi (- 2 - 52)"
    by (rule round_to_double_eqI) simp_all
  then show ?thesis by simp
qed

lemma double_0_4: "round_to_double 0.4 = 3602879701896397 / 9007199254740992"
proof -
  have "round_to_double 0.4 = real_of_int 7205759403792794 * 2 powi (- 2 - 52)"
    by (rule round_to_double_eqI) simp_all
  then show ?thesis by simp
qed

lemma double_0_69: "round_to_double 0.69 = 1553741871442821 / 2251799813685248"
proof -
  have "round_to_double 0.69 = real_of_int 6214967485771284 * 2 powi (- 1 - 52)"
    by (rule round_to_double_eqI) simp_all
  then show ?thesis by simp
qed

lemma double_0_7: "round_to_double 0.7 = 3152519739159347 / 4503599627370496"
proof -
  have "round_to_double 0.7 = real_of_int 6305039478318694 * 2 powi (- 1 - 52)"
    by (rule round_to_double_eqI) simp_all
  then show ?thesis by simp
qed

lemma double_1_001: "round_to_double (1001 / 1000) = 2254051613498933 / 2251799813685248"
proof -
  have "round_to_double (1001 / 1000) = real_of_int 4508103226997866 * 2 powi (0 - 52)"
    by (rule round_to_double_eqI) simp_all
  then show ?thesis by simp
qed

lemma double_1000_99: "round_to_double (2254051613498933 / 2251799813685248 * 1000) = 8804889115230207 / 8796093022208"
proof -
  have "round_to_double (2254051613498933 / 2251799813685248 * 1000) = real_of_int 8804889115230207 * 2 powi (9 - 52)"
    by (rule round_to_double_eqI) simp_all
  then show ?thesis by simp
qed

text \<open>
  A count \<open>v\<close> of microseconds below \<open>2 ^ 52\<close> (142 years) that is divided by 1000 and
  multiplied by 1000 again, in doubles, comes back less than one microsecond away; cut
  to an integer it is \<open>v\<close> or its neighbour toward zero, and it is \<open>v\<close> when \<open>v\<close> is a
  whole number of milliseconds.
\<close>

lemma millisecond_roundtrip_close:
  fixes v :: int
  assumes "\<bar>v\<bar> < 2 ^ 52"
  defines "x \<equiv> round_to_double (round_to_double (round_to_double (real_of_int v) / 1000) * 1000)"
  shows "\<bar>x - real_of_int v\<bar> < 1"
proof -
  have v53: "\<bar>v\<bar> < 2 ^ 53" using assms(1) by simp
  define a where "a = \<bar>real_of_int v\<bar>"
  define x1 where "x1 = round_to_double (real_of_int v / 1000)"
  have a: "a \<le> 4503599627370495"
  proof -
    have "\<bar>v\<bar> \<le> 4503599627370495" using assms(1) by simp
    then have "real_of_int \<bar>v\<bar> \<le> real_of_int 4503599627370495" by (simp only: of_int_le_iff)
    then show ?thesis by (simp add: a_def)
  qed
  have x: "x = round_to_double (x1 * 1000)"
    by (simp add: x_def x1_def round_to_double_of_int [OF v53])
  have e1: "\<bar>x1 - real_of_int v / 1000\<bar> \<le> a / 1000 / 2 ^ 53"
    using round_to_double_error [of "real_of_int v / 1000"] by (simp add: x1_def a_def)
  have e2: "\<bar>x - x1 * 1000\<bar> \<le> \<bar>x1\<bar> * 1000 / 2 ^ 53"
    using round_to_double_error [of "x1 * 1000"] by (simp add: x abs_mult)
  have "\<bar>x1\<bar> \<le> a / 1000 + a / 1000 / 2 ^ 53"
    using e1 unfolding a_def by linarith
  with e1 e2 a show ?thesis unfolding a_def by (simp add: abs_if split: if_splits) 
qed



lemma truncate_toward_zero_close:
  assumes "\<bar>x - real_of_int v\<bar> < 1"
  shows "0 \<le> v \<Longrightarrow> truncate_toward_zero x = v \<or> truncate_toward_zero x = v - 1"
    and "v \<le> 0 \<Longrightarrow> truncate_toward_zero x = v \<or> truncate_toward_zero x = v + 1"
  using assms unfolding truncate_toward_zero_def by (simp_all add: abs_if split: if_splits; linarith)+

lemma millisecond_roundtrip_exact:
  fixes v :: int
  assumes "\<bar>v\<bar> < 2 ^ 52" and "v mod 1000 = 0"
  shows "round_to_double (round_to_double (round_to_double (real_of_int v) / 1000) * 1000)
           = real_of_int v"
proof -
  define k where "k = v div 1000"
  from assms(2) have "1000 dvd v" by (simp add: dvd_eq_mod_eq_0)
  then have v: "v = k * 1000" unfolding k_def by simp
  have k53: "\<bar>k\<bar> < 2 ^ 53" using assms(1) unfolding v by simp
  have v53: "\<bar>k * 1000\<bar> < 2 ^ 53" using assms(1) unfolding v by simp
  have "real_of_int (k * 1000) / 1000 = real_of_int k" by simp
  moreover have "real_of_int k * 1000 = real_of_int (k * 1000)" by simp
  ultimately show ?thesis
    unfolding v
    by (simp only: round_to_double_of_int [OF v53] round_to_double_of_int [OF k53])
qed

lemma truncated_division_step:
  fixes v :: int
  assumes "0 \<le> v" and "v mod 1000 \<noteq> 0"
  shows "(v - 1) div 1000 = v div 1000" and "0 \<le> v - 1"
proof -
  have r: "0 \<le> v mod 1000" "v mod 1000 < 1000" by simp_all
  with assms(2) have r1: "0 \<le> v mod 1000 - 1" by linarith
  have "v - 1 = 1000 * (v div 1000) + (v mod 1000 - 1)" by simp
  then show "(v - 1) div 1000 = v div 1000"
    using r1 r(2) by (intro int_div_pos_eq [of "v - 1" 1000 "v div 1000" "v mod 1000 - 1"]) simp_all
  show "0 \<le> v - 1" using assms by (cases "v = 0") simp_all
qed

lemma Milliseconds_roundtrip:
  fixes v :: int
  assumes "\<bar>v\<bar> < 2 ^ 52"
  defines "d \<equiv> Milliseconds (round_to_double (round_to_double (real_of_int v) / 1000))"
  shows "0 \<le> v \<Longrightarrow> d = v \<or> d = v - 1" and "v \<le> 0 \<Longrightarrow> d = v \<or> d = v + 1"
    and "v mod 1000 = 0 \<Longrightarrow> d = v"
proof -
  define x where
    "x = round_to_double (round_to_double (round_to_double (real_of_int v) / 1000) * 1000)"
  have close: "\<bar>x - real_of_int v\<bar> < 1"
    unfolding x_def by (rule millisecond_roundtrip_close [OF assms(1)])
  have "\<bar>v\<bar> \<le> 4503599627370495" using assms(1) by simp
  then have "real_of_int \<bar>v\<bar> \<le> real_of_int 4503599627370495" by (simp only: of_int_le_iff)
  then have "\<bar>real_of_int v\<bar> \<le> 4503599627370495" by simp
  with close have "\<bar>x\<bar> < 4503599627370496" by linarith
  then have d: "d = truncate_toward_zero x"
    unfolding d_def Milliseconds_def x_def [symmetric] saturated_cast_def by (simp add: abs_if split: if_splits)
  show "0 \<le> v \<Longrightarrow> d = v \<or> d = v - 1" and "v \<le> 0 \<Longrightarrow> d = v \<or> d = v + 1"
    unfolding d using truncate_toward_zero_close [OF close] by blast+
  show "d = v" if "v mod 1000 = 0"
    unfolding d x_def millisecond_roundtrip_exact [OF assms(1) that]
    by (simp add: truncate_toward_zero_def)
qed

lemma timestamp_roundtrip:
  assumes "\<bar>t - kTimeTToMicrosecondsOffset\<bar> < 2 ^ 52"
  defines "t' \<equiv> FromMillisecondsSinceUnixEpoch (InMillisecondsFSinceUnixEpoch t)"
  shows "\<bar>t' - t\<bar> \<le> 1"
    and "InMilliseconds (t' - kTimeTToMicrosecondsOffset)
           = InMilliseconds (t - kTimeTToMicrosecondsOffset)"
proof -
  define v where "v = t - kTimeTToMicrosecondsOffset"
  define d where "d = Milliseconds (round_to_double (round_to_double (real_of_int v) / 1000))"
  have v: "\<bar>v\<bar> < 2 ^ 52" using assms(1) by (simp add: v_def)
  have t0: "t \<noteq> 0" using assms(1) by (auto simp: kTimeTToMicrosecondsOffset_def)
  note r = Milliseconds_roundtrip [OF v, folded d_def]
  have dv: "\<bar>d - v\<bar> \<le> 1" using r(1,2) by (cases "0 \<le> v") auto
  have dsmall: "\<bar>d\<bar> \<le> 4503599627370496" using dv v by simp
  then have ninf: "\<not> is_inf d" by (auto simp: is_inf_def INT64_MAX_def INT64_MIN_def)
  have "InMillisecondsFSinceUnixEpoch t
          = round_to_double (round_to_double (real_of_int v) / 1000)"
    using t0 by (simp only: InMillisecondsFSinceUnixEpoch_def v_def if_False)
  then have "Milliseconds (InMillisecondsFSinceUnixEpoch t) = d" by (simp only: d_def)
  then have "t' = ClampAdd kTimeTToMicrosecondsOffset d"
    using ninf by (simp add: t'_def FromMillisecondsSinceUnixEpoch_def Let_def)
  also have "\<dots> = kTimeTToMicrosecondsOffset + d"
  proof -
    have "- 4503599627370496 \<le> d" "d \<le> 4503599627370496" using dsmall by linarith+
    then show ?thesis
      by (simp add: ClampAdd_def INT64_MAX_def INT64_MIN_def kTimeTToMicrosecondsOffset_def)
  qed
  finally have t': "t' = kTimeTToMicrosecondsOffset + d" .
  show "\<bar>t' - t\<bar> \<le> 1" using dv by (simp add: t' v_def)
  have ninfv: "\<not> is_inf v" using v by (auto simp: is_inf_def INT64_MAX_def INT64_MIN_def)
  have "InMilliseconds d = InMilliseconds v"
  proof (cases "v mod 1000 = 0")
    case True
    then show ?thesis using r(3) by simp
  next
    case False
    show ?thesis
    proof (cases "0 \<le> v")
      case True
      have "(v - 1) div 1000 = v div 1000" "0 \<le> v - 1"
        using True False truncated_division_step [of v] by simp_all
      with r(1) [OF True] True show ?thesis using ninf ninfv
        by (auto simp: InMilliseconds_def)
    next
      case neg: False
      then have le: "v \<le> 0" by simp
      have "(- v) mod 1000 \<noteq> 0" using False by (simp add: dvd_eq_mod_eq_0 [symmetric])
      then have "(- (v + 1)) div 1000 = (- v) div 1000"
        using neg truncated_division_step [of "- v"] by simp
      moreover have "0 div 1000 = (- v) div 1000" if "v + 1 = 0"
      proof -
        from that have "v = - 1" by simp
        then show ?thesis by simp
      qed
      ultimately show ?thesis using r(2) [OF le] neg ninf ninfv
        by (auto simp: InMilliseconds_def)
    qed
  qed
  then show "InMilliseconds (t' - kTimeTToMicrosecondsOffset)
           = InMilliseconds (t - kTimeTToMicrosecondsOffset)"
    by (simp add: t' v_def)
qed

text \<open>
  Three conversions at concrete numbers.  The double nearest to 1.001 times 1000 is
  below 1001, so 1001 microseconds after the Unix epoch come back as 1000, and 1001
  microseconds before it as 1000 before it; a number of milliseconds beyond the 64-bit
  range of microseconds saturates.
\<close>

lemma double_minus_1_001:
  "round_to_double (- 1001 / 1000) = - 2254051613498933 / 2251799813685248"
proof -
  have "round_to_double (- 1001 / 1000) = real_of_int (- 4508103226997866) * 2 powi (0 - 52)"
    by (rule round_to_double_eqI) simp_all
  then show ?thesis by simp
qed

lemma double_minus_1000_99:
  "round_to_double (- 2254051613498933 / 2251799813685248 * 1000)
     = - 8804889115230207 / 8796093022208"
proof -
  have "round_to_double (- 2254051613498933 / 2251799813685248 * 1000)
          = real_of_int (- 8804889115230207) * 2 powi (9 - 52)"
    by (rule round_to_double_eqI) simp_all
  then show ?thesis by simp
qed

lemma InMillisecondsFSinceUnixEpoch_near_epoch:
  assumes "t \<noteq> 0" and "\<bar>t - kTimeTToMicrosecondsOffset\<bar> < 2 ^ 53"
  shows "InMillisecondsFSinceUnixEpoch t
           = round_to_double (real_of_int (t - kTimeTToMicrosecondsOffset) / 1000)"
  using assms(1) round_to_double_of_int [OF assms(2)]
  by (simp only: InMillisecondsFSinceUnixEpoch_def if_False)

lemma FromMillisecondsSinceUnixEpoch_small:
  assumes "Milliseconds dt = d" and "\<bar>d\<bar> < 2 ^ 53"
  shows "FromMillisecondsSinceUnixEpoch dt = kTimeTToMicrosecondsOffset + d"
proof -
  have "- 9007199254740992 < d" "d < 9007199254740992" using assms(2) by simp_all
  then show ?thesis
    by (simp add: FromMillisecondsSinceUnixEpoch_def assms(1) is_inf_def ClampAdd_def
        INT64_MAX_def INT64_MIN_def kTimeTToMicrosecondsOffset_def)
qed

lemma after_epoch_1001:
  "InMillisecondsFSinceUnixEpoch (kTimeTToMicrosecondsOffset + 1001)
     = 2254051613498933 / 2251799813685248"
  "FromMillisecondsSinceUnixEpoch (2254051613498933 / 2251799813685248)
     = kTimeTToMicrosecondsOffset + 1000"
proof -
  have "InMillisecondsFSinceUnixEpoch (kTimeTToMicrosecondsOffset + 1001)
          = round_to_double (real_of_int (kTimeTToMicrosecondsOffset + 1001
              - kTimeTToMicrosecondsOffset) / 1000)"
    by (rule InMillisecondsFSinceUnixEpoch_near_epoch)
       (simp_all add: kTimeTToMicrosecondsOffset_def)
  also have "real_of_int (kTimeTToMicrosecondsOffset + 1001 - kTimeTToMicrosecondsOffset) / 1000
          = 1001 / 1000"
    by simp
  finally show "InMillisecondsFSinceUnixEpoch (kTimeTToMicrosecondsOffset + 1001)
     = 2254051613498933 / 2251799813685248"
    by (simp only: double_1_001)
  have "Milliseconds (2254051613498933 / 2251799813685248)
          = saturated_cast (8804889115230207 / 8796093022208)"
    unfolding Milliseconds_def by (simp only: double_1000_99)
  also have "\<dots> = 1000"
  proof -
    have "\<lfloor>8804889115230207 / 8796093022208 :: real\<rfloor> = 1000" by (simp add: floor_eq_iff)
    then show ?thesis by (simp add: saturated_cast_def truncate_toward_zero_def)
  qed
  finally show "FromMillisecondsSinceUnixEpoch (2254051613498933 / 2251799813685248)
     = kTimeTToMicrosecondsOffset + 1000"
    by (rule FromMillisecondsSinceUnixEpoch_small) simp
qed

lemma before_epoch_1001:
  "FromMillisecondsSinceUnixEpoch
     (InMillisecondsFSinceUnixEpoch (kTimeTToMicrosecondsOffset - 1001))
     = kTimeTToMicrosecondsOffset - 1000"
proof -
  have "InMillisecondsFSinceUnixEpoch (kTimeTToMicrosecondsOffset - 1001)
          = round_to_double (real_of_int (kTimeTToMicrosecondsOffset - 1001
              - kTimeTToMicrosecondsOffset) / 1000)"
    by (rule InMillisecondsFSinceUnixEpoch_near_epoch)
       (simp_all add: kTimeTToMicrosecondsOffset_def)
  also have "real_of_int (kTimeTToMicrosecondsOffset - 1001 - kTimeTToMicrosecondsOffset) / 1000
          = - 1001 / 1000"
    by simp
  finally have ms: "InMillisecondsFSinceUnixEpoch (kTimeTToMicrosecondsOffset - 1001)
     = - 2254051613498933 / 2251799813685248"
    by (simp only: double_minus_1_001)
  have "Milliseconds (- 2254051613498933 / 2251799813685248)
          = saturated_cast (- 8804889115230207 / 8796093022208)"
    unfolding Milliseconds_def by (simp only: double_minus_1000_99)
  also have "\<dots> = - 1000"
  proof -
    have "\<lceil>- 8804889115230207 / 8796093022208 :: real\<rceil> = - 1000" by (simp add: ceiling_eq_iff)
    then show ?thesis by (simp add: saturated_cast_def truncate_toward_zero_def)
  qed
  finally have "FromMillisecondsSinceUnixEpoch (- 2254051613498933 / 2251799813685248)
     = kTimeTToMicrosecondsOffset + - 1000"
    by (rule FromMillisecondsSinceUnixEpoch_small) simp
  then show ?thesis unfolding ms by simp
qed

lemma Milliseconds_saturates: "Milliseconds (10 ^ 19) = INT64_MAX"
proof -
  define x :: real where "x = 10 ^ 19 * 1000"
  define y where "y = round_to_double x"
  have x: "x = 10000000000000000000000" by (simp add: x_def)
  have "\<bar>y - x\<bar> \<le> \<bar>x\<bar> / 2 ^ 53" unfolding y_def by (rule round_to_double_error)
  moreover have "\<bar>x\<bar> / 2 ^ 53 \<le> 1110224" unfolding x by simp
  moreover have "x - y \<le> \<bar>y - x\<bar>" by simp
  ultimately have "x - y \<le> 1110224" by linarith
  then have "9223372036854775808 \<le> y" unfolding x by linarith
  then have "saturated_cast y = INT64_MAX" by (simp add: saturated_cast_def)
  then show ?thesis unfolding Milliseconds_def y_def x_def .
qed

lemma null_time_roundtrip:
  "FromMillisecondsSinceUnixEpoch (InMillisecondsFSinceUnixEpoch 0) = kTimeTToMicrosecondsOffset"
  by (simp add: FromMillisecondsSinceUnixEpoch_def InMillisecondsFSinceUnixEpoch_def
      Milliseconds_def saturated_cast_def truncate_toward_zero_def is_inf_def ClampAdd_def
      INT64_MAX_def INT64_MIN_def kTimeTToMicrosecondsOffset_def)

text \<open>
  No double lies between a decimal and the double nearest to it: a double that is less
  than the literal \<^verbatim>\<open>0.4\<close> is less than the decimal 0.4, and a double that is less than
  the decimal 0.7 is the literal \<^verbatim>\<open>0.7\<close> or less than it.
\<close>

lemma double_below_0_4:
  assumes "round_to_double c = c"
  shows "c < round_to_double 0.4 \<longleftrightarrow> c < 0.4"
proof
  assume "c < 0.4"
  then show "c < round_to_double 0.4" unfolding double_0_4 by simp
next
  assume less: "c < round_to_double 0.4"
  show "c < 0.4"
  proof (rule ccontr)
    assume "\<not> c < 0.4"
    then have lo: "0.4 \<le> c" by simp
    have hi: "c < 3602879701896397 / 9007199254740992" using less unfolding double_0_4 .
    have "binade c = - 2" using lo hi by (intro binade_eqI) simp_all
    then have c: "c = real_of_int (round_half_even (c / 2 powi (- 2 - 52))) * 2 powi (- 2 - 52)"
      using assms by (simp add: round_to_double_def)
    define k where "k = round_half_even (c / 2 powi (- 2 - 52))"
    have ck: "c = real_of_int k / 18014398509481984" using c by (simp add: k_def)
    have "real_of_int 7205759403792793 < real_of_int k" using lo unfolding ck by simp
    moreover have "real_of_int k < real_of_int 7205759403792794" using hi unfolding ck by simp
    ultimately have "7205759403792793 < k" "k < 7205759403792794"
      by (simp_all only: of_int_less_iff)
    then show False by simp
  qed
qed

lemma double_below_0_7:
  assumes "round_to_double c = c"
  shows "c < 0.7 \<longleftrightarrow> c < round_to_double 0.7 \<or> c = round_to_double 0.7"
proof
  assume "c < round_to_double 0.7 \<or> c = round_to_double 0.7"
  then show "c < 0.7" unfolding double_0_7 by auto
next
  assume less: "c < 0.7"
  show "c < round_to_double 0.7 \<or> c = round_to_double 0.7"
  proof (rule ccontr)
    assume "\<not> (c < round_to_double 0.7 \<or> c = round_to_double 0.7)"
    then have lo: "3152519739159347 / 4503599627370496 < c" unfolding double_0_7 by simp
    have "binade c = - 1" using lo less by (intro binade_eqI) simp_all
    then have c: "c = real_of_int (round_half_even (c / 2 powi (- 1 - 52))) * 2 powi (- 1 - 52)"
      using assms by (simp add: round_to_double_def)
    define k where "k = round_half_even (c / 2 powi (- 1 - 52))"
    have ck: "c = real_of_int k / 9007199254740992" using c by (simp add: k_def)
    have "real_of_int 6305039478318694 < real_of_int k" using lo unfolding ck by simp
    moreover have "real_of_int k < real_of_int 6305039478318695" using less unfolding ck by simp
    ultimately have "6305039478318694 < k" "k < 6305039478318695"
      by (simp_all only: of_int_less_iff)
    then show False by simp
  qed
qed
section \<open>Facts about the store\<close>

lemma import_loop_append:
  "import_loop ind k items evs = evs @ import_loop ind k items []"
proof (induction items arbitrary: k evs)
  case Nil
  show ?case by simp
next
  case (Cons item items)
  show ?case
  proof (cases item)
    case (DICT dict)
    have "import_loop ind (Suc k) items (evs @ [import_event (ind k) dict])
          = (evs @ [import_event (ind k) dict]) @ import_loop ind (Suc k) items []"
      by (rule Cons.IH)
    moreover have "import_loop ind (Suc k) items [import_event (ind k) dict]
          = [import_event (ind k) dict] @ import_loop ind (Suc k) items []"
      by (rule Cons.IH)
    ultimately show ?thesis using DICT by simp
  qed (simp_all add: Cons.IH [of "Suc k" evs])
qed

lemma length_import_loop:
  "length (import_loop ind k items evs) = length evs + length (filter is_dict items)"
  by (induction ind k items evs rule: import_loop.induct) simp_all

lemma StoreEvent_count:
  "GetEventCount (StoreEvent s e) =
     (if GetEventCount s < kMaxCachedEvents then GetEventCount s + 1 else GetEventCount s)"
  by (simp add: StoreEvent_def GetEventCount_def Let_def)

lemma import_export_event: "import_event ind (event_dict e) = reimported e"
  by (cases e) (simp add: import_event_def event_dict_def Set_key_def FindInt_def FindDouble_def
      FindString_def BrowsingEvent_default_def reimported_def)

lemma exported_view_reimported:
  "\<bar>timestamp e - kTimeTToMicrosecondsOffset\<bar> < 2 ^ 52 \<Longrightarrow>
   exported_view (reimported e) = exported_view e"
  using timestamp_roundtrip(2) [of "timestamp e"]
  by (simp add: exported_view_def reimported_def)

lemma timestamp_reimported:
  "\<bar>timestamp e - kTimeTToMicrosecondsOffset\<bar> < 2 ^ 52 \<Longrightarrow>
   \<bar>timestamp (reimported e) - timestamp e\<bar> \<le> 1"
  using timestamp_roundtrip(1) [of "timestamp e"] by (simp add: reimported_def)

lemma import_loop_lists:
  "import_loop ind k (map (\<lambda>e. DICT (event_dict e)) es) [] = map reimported es"
proof (induction es arbitrary: k)
  case Nil
  show ?case by simp
next
  case (Cons e es)
  have "import_loop ind k (map (\<lambda>e. DICT (event_dict e)) (e # es)) []
        = [import_event (ind k) (event_dict e)]
          @ import_loop ind (Suc k) (map (\<lambda>e. DICT (event_dict e)) es) []"
    using import_loop_append [of ind "Suc k" _ "[import_event (ind k) (event_dict e)]"] by simp
  then show ?case by (simp add: Cons.IH import_export_event)
qed

lemma take_prefix_iff: "take (length p) xs = p \<longleftrightarrow> prefix p xs"
  by (metis append_eq_conv_conj prefix_def)

lemma Decrypt_Encrypt:
  "encryption_key d \<noteq> [] \<Longrightarrow> encryption_key s \<noteq> [] \<Longrightarrow> Decrypt d (Encrypt s p) = p"
  by (simp add: Decrypt_def Encrypt_def)

lemma ImportEncrypted_success:
  assumes "Decrypt s data \<noteq> []" and "Read (Decrypt s data) = Some (LIST items)"
  shows "ImportEncrypted Read ind s data
           = (True, s\<lparr>events := events s @ import_loop ind 0 items []\<rparr>)"
  using assms import_loop_append [of ind 0 items "events s"]
  by (simp add: ImportEncrypted_def Let_def)

lemma export_import_events:
  assumes "encryption_key src \<noteq> []" and "encryption_key dst \<noteq> []"
    and "Write (LIST (map (\<lambda>e. DICT (event_dict e)) (events src))) \<noteq> []"
    and "Read (Write (LIST (map (\<lambda>e. DICT (event_dict e)) (events src))))
           = Some (LIST (map (\<lambda>e. DICT (event_dict e)) (events src)))"
  shows "ImportEncrypted Read ind dst (ExportEncrypted Write src)
           = (True, dst\<lparr>events := events dst @ map reimported (events src)\<rparr>)"
proof -
  let ?json = "Write (LIST (map (\<lambda>e. DICT (event_dict e)) (events src)))"
  have dec: "Decrypt dst (ExportEncrypted Write src) = ?json"
    using assms(1,2) by (simp add: ExportEncrypted_def Decrypt_Encrypt)
  have "ImportEncrypted Read ind dst (ExportEncrypted Write src)
      = (True, dst\<lparr>events := events dst
           @ import_loop ind 0 (map (\<lambda>e. DICT (event_dict e)) (events src)) []\<rparr>)"
    by (rule ImportEncrypted_success) (simp_all add: dec assms)
  then show ?thesis by (simp add: import_loop_lists)
qed

subsection \<open>Capacity\<close>

text \<open>
  \<^bold>\<open>C3\<close> (the code departs from the claim).  The claim: after every \<^verbatim>\<open>StoreEvent\<close>, from
  every store state, at most 10,000 events are stored.  \<^verbatim>\<open>StoreEvent\<close> erases one entry
  when the size is over the limit, and \<^verbatim>\<open>ImportEncrypted\<close> appends without looking at the
  limit.  A store that holds 10,000 events imports a blob of one record and holds
  10,001; the next \<^verbatim>\<open>StoreEvent\<close> pushes one event, erases one, and returns with 10,001
  stored.  From a store within the limit the bound holds, and a full store evicts its
  oldest events first (the two lemmas after the theorem).
\<close>

theorem StoreEvent_over_capacity:
  "GetEventCount (full_store e) = kMaxCachedEvents
   \<and> ImportEncrypted one_record_reader ind (full_store e) ''[ENCRYPTED][{}]''
       = (True, (full_store e)\<lparr>events := events (full_store e) @ [import_event (ind 0) []]\<rparr>)
   \<and> GetEventCount (snd (ImportEncrypted one_record_reader ind (full_store e) ''[ENCRYPTED][{}]''))
       = 10001
   \<and> GetEventCount (StoreEvent
         (snd (ImportEncrypted one_record_reader ind (full_store e) ''[ENCRYPTED][{}]'')) e')
       = 10001"
proof -
  have dec: "Decrypt (full_store e) ''[ENCRYPTED][{}]'' = ''[{}]''"
    by (simp add: Decrypt_def full_store_def)
  have count: "GetEventCount (full_store e) = kMaxCachedEvents"
    by (simp add: GetEventCount_def full_store_def)
  have imp: "ImportEncrypted one_record_reader ind (full_store e) ''[ENCRYPTED][{}]''
       = (True, (full_store e)\<lparr>events := events (full_store e) @ [import_event (ind 0) []]\<rparr>)"
    using ImportEncrypted_success [of "full_store e" "''[ENCRYPTED][{}]''" one_record_reader
        "[DICT []]" ind]
    by (simp add: dec one_record_reader_def)
  have after: "GetEventCount (snd (ImportEncrypted one_record_reader ind (full_store e)
                 ''[ENCRYPTED][{}]'')) = 10001"
    using count by (simp add: imp GetEventCount_def kMaxCachedEvents_def)
  have "GetEventCount (StoreEvent
         (snd (ImportEncrypted one_record_reader ind (full_store e) ''[ENCRYPTED][{}]'')) e')
       = 10001"
    by (simp add: StoreEvent_count after kMaxCachedEvents_def)
  with count imp after show ?thesis by simp
qed

lemma StoreEvent_within_capacity:
  "GetEventCount s \<le> kMaxCachedEvents \<Longrightarrow> GetEventCount (StoreEvent s e) \<le> kMaxCachedEvents"
  by (simp add: StoreEvent_count)

lemma StoreEvent_fifo:
  "length (events s) = kMaxCachedEvents \<Longrightarrow>
   events (foldl StoreEvent s es) = drop (length es) (events s @ es)"
proof (induction es rule: rev_induct)
  case Nil
  then show ?case by simp
next
  case (snoc e es)
  have len: "length (events (foldl StoreEvent s es)) = kMaxCachedEvents"
    using snoc by simp
  have "events (foldl StoreEvent s (es @ [e])) = tl (events (foldl StoreEvent s es) @ [e])"
    using len by (simp add: StoreEvent_def Let_def)
  also have "\<dots> = tl (drop (length es) (events s @ es) @ [e])"
    using snoc by simp
  also have "\<dots> = tl (drop (length es) (events s @ es @ [e]))"
    using snoc.prems by (simp add: kMaxCachedEvents_def)
  also have "\<dots> = drop (length (es @ [e])) (events s @ es @ [e])"
    by (simp only: length_append_singleton drop_Suc tl_drop)
  finally show ?case by simp
qed

subsection \<open>Import\<close>

text \<open>
  \<^bold>\<open>C4\<close>.  Whatever the store and the blob: when \<^verbatim>\<open>ImportEncrypted\<close> returns false the
  store is what it was before the call; when it returns true, the decrypted payload was
  read as a list, and the store differs from the old one only in its events, which are
  the old events, in their order, followed by the events recovered from the list.
\<close>

theorem ImportEncrypted_failure_keeps_state:
  assumes "ImportEncrypted Read ind s data = (ok, s')"
  shows "(\<not> ok \<longrightarrow> s' = s)
       \<and> (ok \<longrightarrow> (\<exists>items. Read (Decrypt s data) = Some (LIST items)
                    \<and> s' = s\<lparr>events := events s @ import_loop ind 0 items []\<rparr>))"
  using assms import_loop_append [of ind 0 _ "events s"]
  by (auto simp: ImportEncrypted_def Let_def split: if_splits option.splits Value.splits)

theorem ImportEncrypted_failure_keeps_state_witness:
  "\<not> fst (ImportEncrypted one_record_reader (\<lambda>k. 0) sample_store ''garbage'')
   \<and> snd (ImportEncrypted one_record_reader (\<lambda>k. 0) sample_store ''garbage'') = sample_store
   \<and> fst (ImportEncrypted one_record_reader (\<lambda>k. 0) sample_store ''[ENCRYPTED][{}]'')
   \<and> events (snd (ImportEncrypted one_record_reader (\<lambda>k. 0) sample_store ''[ENCRYPTED][{}]''))
       = [sample_event, BrowsingEvent_default 0]"
proof -
  let ?bad = "ImportEncrypted one_record_reader (\<lambda>k. 0) sample_store ''garbage''"
  let ?good = "ImportEncrypted one_record_reader (\<lambda>k. 0) sample_store ''[ENCRYPTED][{}]''"
  have dec: "Decrypt sample_store ''[ENCRYPTED][{}]'' = ''[{}]''"
    by (simp add: Decrypt_def sample_store_def)
  have bad: "\<not> fst ?bad"
    by (simp add: ImportEncrypted_def Decrypt_def sample_store_def one_record_reader_def)
  have good: "fst ?good"
    by (simp add: ImportEncrypted_def dec one_record_reader_def)
  from ImportEncrypted_failure_keeps_state [OF surjective_pairing, of one_record_reader "\<lambda>k. 0" sample_store "''garbage''"]
    bad have 1: "snd ?bad = sample_store" by blast
  from ImportEncrypted_failure_keeps_state [OF surjective_pairing, of one_record_reader "\<lambda>k. 0" sample_store "''[ENCRYPTED][{}]''"]
    good obtain items where rd: "one_record_reader (Decrypt sample_store ''[ENCRYPTED][{}]'') = Some (LIST items)"
      and s': "snd ?good = sample_store\<lparr>events := events sample_store @ import_loop (\<lambda>k. 0) 0 items []\<rparr>"
    by blast
  from rd have "items = [DICT []]"
    by (simp add: dec one_record_reader_def)
  with s' have 2: "events (snd ?good) = [sample_event, BrowsingEvent_default 0]"
    by (simp add: sample_store_def import_event_def FindInt_def FindString_def FindDouble_def)
  from bad 1 good 2 show ?thesis by blast
qed

text \<open>
  \<^bold>\<open>C9\<close>.  An import that succeeds appends one event for every record of the list and
  evicts nothing: the old events all stay, and the count afterwards is the count before
  plus the number of records, whatever the limit, so it exceeds 10,000 as soon as that
  sum does (the instance after the theorem imports one record into a store of 10,000).
  \<^verbatim>\<open>StoreEvent\<close> is the only place that trims, by at most one entry a call: it never
  lowers the count, and raises it by at most one.
\<close>

theorem ImportEncrypted_exceeds_capacity:
  assumes "Decrypt s data \<noteq> []" and "Read (Decrypt s data) = Some (LIST items)"
  shows "fst (ImportEncrypted Read ind s data)
       \<and> events (snd (ImportEncrypted Read ind s data)) = events s @ import_loop ind 0 items []
       \<and> GetEventCount (snd (ImportEncrypted Read ind s data))
           = GetEventCount s + length (filter is_dict items)
       \<and> (kMaxCachedEvents < GetEventCount s + length (filter is_dict items)
            \<longrightarrow> kMaxCachedEvents < GetEventCount (snd (ImportEncrypted Read ind s data)))
       \<and> GetEventCount t \<le> GetEventCount (StoreEvent t e)
       \<and> GetEventCount (StoreEvent t e) \<le> GetEventCount t + 1"
  using assms
  by (simp add: ImportEncrypted_success StoreEvent_count) (simp add: GetEventCount_def length_import_loop)

theorem ImportEncrypted_exceeds_capacity_witness:
  "fst (ImportEncrypted one_record_reader (\<lambda>k. 0) (full_store sample_event) ''[ENCRYPTED][{}]'')
   \<and> GetEventCount (full_store sample_event) = 10000
   \<and> GetEventCount (snd (ImportEncrypted one_record_reader (\<lambda>k. 0) (full_store sample_event)
                            ''[ENCRYPTED][{}]'')) = 10001
   \<and> kMaxCachedEvents < GetEventCount (snd (ImportEncrypted one_record_reader (\<lambda>k. 0)
                            (full_store sample_event) ''[ENCRYPTED][{}]''))"
proof -
  have dec: "Decrypt (full_store sample_event) ''[ENCRYPTED][{}]'' = ''[{}]''"
    by (simp add: Decrypt_def full_store_def)
  have count: "GetEventCount (full_store sample_event) = 10000"
    by (simp add: GetEventCount_def full_store_def kMaxCachedEvents_def)
  from ImportEncrypted_exceeds_capacity [of "full_store sample_event" "''[ENCRYPTED][{}]''"
      one_record_reader "[DICT []]" "\<lambda>k. 0"]
  show ?thesis
    by (simp add: dec one_record_reader_def count kMaxCachedEvents_def)
qed

subsection \<open>The placeholder cipher\<close>

text \<open>
  \<^bold>\<open>C10\<close>, as stated, fails where no key is set: \<^verbatim>\<open>Decrypt\<close> then returns every blob
  unchanged, also one that starts with \<^verbatim>\<open>[ENCRYPTED]\<close>.
\<close>

theorem Decrypt_without_key_counterexample:
  "encryption_key EncryptedStore_init = []
   \<and> prefix ''[ENCRYPTED]'' ''[ENCRYPTED][]''
   \<and> Decrypt EncryptedStore_init ''[ENCRYPTED][]'' = ''[ENCRYPTED][]''
   \<and> Decrypt EncryptedStore_init ''[ENCRYPTED][]'' \<noteq> ''[]''"
  by (simp add: Decrypt_def EncryptedStore_init_def)

text \<open>
  \<^bold>\<open>C10\<close>, amended.  \<^verbatim>\<open>Decrypt\<close> never fails.  With no key set it returns every blob
  unchanged, and \<^verbatim>\<open>Encrypt\<close> returns the plaintext unchanged.  With a key set it returns
  the remainder of a blob that starts with \<^verbatim>\<open>[ENCRYPTED]\<close>, and any other blob unchanged.
  So \<^verbatim>\<open>ImportEncrypted\<close> accepts a plaintext blob (not empty, read as a list by the JSON
  reader, and either no key is set or the blob does not start with the prefix) and
  appends its events.
\<close>

theorem Decrypt_never_fails:
  "(encryption_key s = [] \<longrightarrow> Decrypt s blob = blob \<and> Encrypt s plaintext = plaintext)
   \<and> (encryption_key s \<noteq> [] \<longrightarrow> Decrypt s (''[ENCRYPTED]'' @ rest) = rest)
   \<and> (encryption_key s \<noteq> [] \<longrightarrow> \<not> prefix ''[ENCRYPTED]'' blob \<longrightarrow> Decrypt s blob = blob)
   \<and> (blob \<noteq> [] \<longrightarrow> Read blob = Some (LIST items)
        \<longrightarrow> (encryption_key s = [] \<or> \<not> prefix ''[ENCRYPTED]'' blob)
        \<longrightarrow> ImportEncrypted Read ind s blob
              = (True, s\<lparr>events := events s @ import_loop ind 0 items []\<rparr>))"
proof -
  have a: "encryption_key s = [] \<longrightarrow> Decrypt s blob = blob \<and> Encrypt s plaintext = plaintext"
    by (simp add: Decrypt_def Encrypt_def)
  have b: "encryption_key s \<noteq> [] \<longrightarrow> Decrypt s (''[ENCRYPTED]'' @ rest) = rest"
    by (simp add: Decrypt_def)
  have c: "encryption_key s \<noteq> [] \<longrightarrow> \<not> prefix ''[ENCRYPTED]'' blob \<longrightarrow> Decrypt s blob = blob"
    using take_prefix_iff [of "''[ENCRYPTED]''" blob] by (simp add: Decrypt_def Let_def)
  have d: "blob \<noteq> [] \<longrightarrow> Read blob = Some (LIST items)
        \<longrightarrow> (encryption_key s = [] \<or> \<not> prefix ''[ENCRYPTED]'' blob)
        \<longrightarrow> ImportEncrypted Read ind s blob
              = (True, s\<lparr>events := events s @ import_loop ind 0 items []\<rparr>)"
  proof (intro impI)
    assume ne: "blob \<noteq> []" and rd: "Read blob = Some (LIST items)"
      and k: "encryption_key s = [] \<or> \<not> prefix ''[ENCRYPTED]'' blob"
    have "Decrypt s blob = blob" using k a c by blast
    then show "ImportEncrypted Read ind s blob
              = (True, s\<lparr>events := events s @ import_loop ind 0 items []\<rparr>)"
      using ne rd by (simp add: ImportEncrypted_success)
  qed
  from a b c d show ?thesis by blast
qed

theorem Decrypt_never_fails_witness:
  "Decrypt EncryptedStore_init ''[ENCRYPTED][{}]'' = ''[ENCRYPTED][{}]''
   \<and> Encrypt EncryptedStore_init ''[{}]'' = ''[{}]''
   \<and> Decrypt sample_store ''[ENCRYPTED][{}]'' = ''[{}]''
   \<and> Decrypt sample_store ''[{}]'' = ''[{}]''
   \<and> ImportEncrypted one_record_reader (\<lambda>k. 0) EncryptedStore_init ''[{}]''
        = (True, EncryptedStore_init\<lparr>events := [BrowsingEvent_default 0]\<rparr>)
   \<and> ImportEncrypted one_record_reader (\<lambda>k. 0) sample_store ''[{}]''
        = (True, sample_store\<lparr>events := [sample_event, BrowsingEvent_default 0]\<rparr>)"
proof -
  have k0: "encryption_key EncryptedStore_init = []" by (simp add: EncryptedStore_init_def)
  have k1: "encryption_key sample_store \<noteq> []" by (simp add: sample_store_def)
  have np: "\<not> prefix ''[ENCRYPTED]'' ''[{}]''" by (simp add: prefix_def)
  have rd: "one_record_reader ''[{}]'' = Some (LIST [DICT []])" by (simp add: one_record_reader_def)
  have ev: "import_event 0 [] = BrowsingEvent_default 0"
    by (simp add: import_event_def FindInt_def FindString_def FindDouble_def)
  note w0 = Decrypt_never_fails [of EncryptedStore_init "''[ENCRYPTED][{}]''" "''[{}]''" "''[{}]''"]
  note w1 = Decrypt_never_fails [of sample_store "''[{}]''" "''[{}]''" "''[{}]''"]
  note i0 = Decrypt_never_fails [of EncryptedStore_init "''[{}]''" "''[{}]''" "''[{}]''"
      one_record_reader "[DICT []]" "\<lambda>k. 0"]
  note i1 = Decrypt_never_fails [of sample_store "''[{}]''" "''[{}]''" "''[{}]''"
      one_record_reader "[DICT []]" "\<lambda>k. 0"]
  have 1: "Decrypt EncryptedStore_init ''[ENCRYPTED][{}]'' = ''[ENCRYPTED][{}]''"
    using w0 k0 by blast
  have 2: "Encrypt EncryptedStore_init ''[{}]'' = ''[{}]''" using w0 k0 by blast
  have 3: "Decrypt sample_store ''[ENCRYPTED][{}]'' = ''[{}]''"
    using w1 k1 by simp
  have 4: "Decrypt sample_store ''[{}]'' = ''[{}]''" using w1 k1 np by blast
  have 5: "ImportEncrypted one_record_reader (\<lambda>k. 0) EncryptedStore_init ''[{}]''
        = (True, EncryptedStore_init\<lparr>events := [BrowsingEvent_default 0]\<rparr>)"
    using i0 k0 rd by (simp add: ev EncryptedStore_init_def)
  have 6: "ImportEncrypted one_record_reader (\<lambda>k. 0) sample_store ''[{}]''
        = (True, sample_store\<lparr>events := [sample_event, BrowsingEvent_default 0]\<rparr>)"
    using i1 k1 np rd by (simp add: ev sample_store_def)
  from 1 2 3 4 5 6 show ?thesis by blast
qed

subsection \<open>Export, then import\<close>

text \<open>
  \<^bold>\<open>C7\<close>, as stated, fails in two ways.  A stored event whose timestamp is the null time
  is exported as the number 0 and imported as the Unix epoch, which is 11,644,473,600,000
  milliseconds after the null time.  And a destination that holds no event but has no
  key set does not strip the prefix of the blob, the JSON reader does not read the
  text, and the import fails.
\<close>

theorem export_import_roundtrip_counterexample:
  "encryption_key (keyed_store [null_time_event]) \<noteq> []
   \<and> events (ClearAll (keyed_store [null_time_event])) = []
   \<and> ImportEncrypted (one_event_reader null_time_event) (\<lambda>k. 0)
        (ClearAll (keyed_store [null_time_event]))
        (ExportEncrypted one_event_writer (keyed_store [null_time_event]))
       = (True, keyed_store [null_time_event\<lparr>timestamp := kTimeTToMicrosecondsOffset\<rparr>])
   \<and> map exported_view (events (keyed_store [null_time_event]))
       = [(PAGE_LOAD, ''ab12'', - 11644473600000, 0, [], [])]
   \<and> map exported_view [null_time_event\<lparr>timestamp := kTimeTToMicrosecondsOffset\<rparr>]
       = [(PAGE_LOAD, ''ab12'', 0, 0, [], [])]
   \<and> encryption_key sample_store \<noteq> [] \<and> events EncryptedStore_init = []
   \<and> ImportEncrypted sample_reader (\<lambda>k. 0) EncryptedStore_init
        (ExportEncrypted sample_writer sample_store)
       = (False, EncryptedStore_init)"
proof -
  have re: "reimported null_time_event = null_time_event\<lparr>timestamp := kTimeTToMicrosecondsOffset\<rparr>"
    by (simp add: reimported_def null_time_event_def BrowsingEvent_init_def null_time_roundtrip
        InMilliseconds_def is_inf_def INT64_MAX_def INT64_MIN_def Milliseconds_def
        saturated_cast_def truncate_toward_zero_def)
  have "ImportEncrypted (one_event_reader null_time_event) (\<lambda>k. 0)
        (ClearAll (keyed_store [null_time_event]))
        (ExportEncrypted one_event_writer (keyed_store [null_time_event]))
       = (True, (ClearAll (keyed_store [null_time_event]))
            \<lparr>events := events (ClearAll (keyed_store [null_time_event]))
                 @ map reimported (events (keyed_store [null_time_event]))\<rparr>)"
    by (rule export_import_events)
       (simp_all add: keyed_store_def ClearAll_def one_event_writer_def one_event_reader_def)
  then have imp: "ImportEncrypted (one_event_reader null_time_event) (\<lambda>k. 0)
        (ClearAll (keyed_store [null_time_event]))
        (ExportEncrypted one_event_writer (keyed_store [null_time_event]))
       = (True, keyed_store [null_time_event\<lparr>timestamp := kTimeTToMicrosecondsOffset\<rparr>])"
    by (simp add: keyed_store_def ClearAll_def re)
  have v0: "map exported_view (events (keyed_store [null_time_event]))
       = [(PAGE_LOAD, ''ab12'', - 11644473600000, 0, [], [])]"
    by (simp add: keyed_store_def exported_view_def null_time_event_def BrowsingEvent_init_def
        InMilliseconds_def is_inf_def INT64_MAX_def INT64_MIN_def kTimeTToMicrosecondsOffset_def)
  have v1: "map exported_view [null_time_event\<lparr>timestamp := kTimeTToMicrosecondsOffset\<rparr>]
       = [(PAGE_LOAD, ''ab12'', 0, 0, [], [])]"
    by (simp add: exported_view_def null_time_event_def BrowsingEvent_init_def
        InMilliseconds_def is_inf_def INT64_MAX_def INT64_MIN_def)
  have "Decrypt EncryptedStore_init (ExportEncrypted sample_writer sample_store)
          = ''[ENCRYPTED][{sample_event}]''"
    by (simp add: Decrypt_def EncryptedStore_init_def ExportEncrypted_def Encrypt_def
        sample_writer_def sample_store_def)
  then have keyless: "ImportEncrypted sample_reader (\<lambda>k. 0) EncryptedStore_init
        (ExportEncrypted sample_writer sample_store) = (False, EncryptedStore_init)"
    by (simp add: ImportEncrypted_def sample_reader_def)
  have keys: "encryption_key (keyed_store [null_time_event]) \<noteq> []"
    "events (ClearAll (keyed_store [null_time_event])) = []"
    "encryption_key sample_store \<noteq> []" "events EncryptedStore_init = []"
    by (simp_all add: keyed_store_def ClearAll_def sample_store_def EncryptedStore_init_def)
  from keys imp v0 v1 keyless show ?thesis by simp
qed

text \<open>
  \<^bold>\<open>C7\<close>, amended.  Source and destination both have a key set, the destination holds
  no event, the JSON codec reads back the list the export writes (as a text that is not
  empty), and every timestamp of the source is less than \<open>2 ^ 52\<close> microseconds (142
  years) away from the Unix epoch.  Then importing the exported blob succeeds, and the
  destination holds, in the source's order, events that agree with the source's events
  on type, URL hash, scroll depth, element type, search query, and on the timestamp in
  whole milliseconds since the Unix epoch; so the two multisets of events, seen through
  these fields, are equal.  Each timestamp is at most one microsecond away from the
  source's.
\<close>

theorem export_import_roundtrip:
  assumes "encryption_key src \<noteq> []" and "encryption_key dst \<noteq> []" and "events dst = []"
    and "Write (LIST (map (\<lambda>e. DICT (event_dict e)) (events src))) \<noteq> []"
    and "Read (Write (LIST (map (\<lambda>e. DICT (event_dict e)) (events src))))
           = Some (LIST (map (\<lambda>e. DICT (event_dict e)) (events src)))"
    and "\<forall>e \<in> set (events src). \<bar>timestamp e - kTimeTToMicrosecondsOffset\<bar> < 2 ^ 52"
  shows "fst (ImportEncrypted Read ind dst (ExportEncrypted Write src))
       \<and> map exported_view (events (snd (ImportEncrypted Read ind dst (ExportEncrypted Write src))))
           = map exported_view (events src)
       \<and> mset (map exported_view (events (snd (ImportEncrypted Read ind dst (ExportEncrypted Write src)))))
           = mset (map exported_view (events src))
       \<and> list_all2 (\<lambda>e' e. \<bar>timestamp e' - timestamp e\<bar> \<le> 1)
           (events (snd (ImportEncrypted Read ind dst (ExportEncrypted Write src)))) (events src)"
proof -
  have imp: "ImportEncrypted Read ind dst (ExportEncrypted Write src)
      = (True, dst\<lparr>events := events dst @ map reimported (events src)\<rparr>)"
    using assms(1,2,4,5) by (rule export_import_events)
  have ev: "events (snd (ImportEncrypted Read ind dst (ExportEncrypted Write src)))
      = map reimported (events src)"
    by (simp add: imp assms(3))
  have view: "map exported_view (map reimported (events src)) = map exported_view (events src)"
    using assms(6) by (simp add: exported_view_reimported)
  have near: "list_all2 (\<lambda>e' e. \<bar>timestamp e' - timestamp e\<bar> \<le> 1)
      (map reimported (events src)) (events src)"
    using assms(6) by (simp add: list_all2_map1 list_all2_same timestamp_reimported)
  show ?thesis unfolding ev view using imp near by simp
qed

theorem export_import_roundtrip_witness:
  "ExportEncrypted one_event_writer (keyed_store [fractional_event]) = ''[ENCRYPTED][{event}]''
   \<and> fst (ImportEncrypted (one_event_reader fractional_event) (\<lambda>k. 0)
            (ClearAll (keyed_store [fractional_event]))
            (ExportEncrypted one_event_writer (keyed_store [fractional_event])))
   \<and> map exported_view (events (snd (ImportEncrypted (one_event_reader fractional_event) (\<lambda>k. 0)
            (ClearAll (keyed_store [fractional_event]))
            (ExportEncrypted one_event_writer (keyed_store [fractional_event])))))
       = [(PAGE_UNLOAD, ''ab12'', 1, 1 / 2, [], [])]
   \<and> map exported_view (events (keyed_store [fractional_event]))
       = [(PAGE_UNLOAD, ''ab12'', 1, 1 / 2, [], [])]
   \<and> map timestamp (events (keyed_store [fractional_event])) = [kTimeTToMicrosecondsOffset + 1001]
   \<and> map timestamp (events (snd (ImportEncrypted (one_event_reader fractional_event) (\<lambda>k. 0)
            (ClearAll (keyed_store [fractional_event]))
            (ExportEncrypted one_event_writer (keyed_store [fractional_event])))))
       = [kTimeTToMicrosecondsOffset + 1000]"
proof -
  have ex: "ExportEncrypted one_event_writer (keyed_store [fractional_event]) = ''[ENCRYPTED][{event}]''"
    by (simp add: ExportEncrypted_def Encrypt_def one_event_writer_def keyed_store_def)
  have v: "map exported_view (events (keyed_store [fractional_event]))
       = [(PAGE_UNLOAD, ''ab12'', 1, 1 / 2, [], [])]"
    by (simp add: keyed_store_def fractional_event_def sample_event_def exported_view_def
        BrowsingEvent_init_def InMilliseconds_def is_inf_def INT64_MAX_def INT64_MIN_def)
  have t: "map timestamp (events (keyed_store [fractional_event])) = [kTimeTToMicrosecondsOffset + 1001]"
    by (simp add: keyed_store_def fractional_event_def)
  have "ImportEncrypted (one_event_reader fractional_event) (\<lambda>k. 0)
        (ClearAll (keyed_store [fractional_event]))
        (ExportEncrypted one_event_writer (keyed_store [fractional_event]))
       = (True, (ClearAll (keyed_store [fractional_event]))
            \<lparr>events := events (ClearAll (keyed_store [fractional_event]))
                 @ map reimported (events (keyed_store [fractional_event]))\<rparr>)"
    by (rule export_import_events)
       (simp_all add: keyed_store_def ClearAll_def one_event_writer_def one_event_reader_def)
  then have t': "map timestamp (events (snd (ImportEncrypted (one_event_reader fractional_event) (\<lambda>k. 0)
            (ClearAll (keyed_store [fractional_event]))
            (ExportEncrypted one_event_writer (keyed_store [fractional_event])))))
       = [kTimeTToMicrosecondsOffset + 1000]"
    by (simp add: keyed_store_def ClearAll_def reimported_def fractional_event_def after_epoch_1001)
  from export_import_roundtrip [of "keyed_store [fractional_event]"
      "ClearAll (keyed_store [fractional_event])" one_event_writer
      "one_event_reader fractional_event" "\<lambda>k. 0"]
  have "fst (ImportEncrypted (one_event_reader fractional_event) (\<lambda>k. 0)
            (ClearAll (keyed_store [fractional_event]))
            (ExportEncrypted one_event_writer (keyed_store [fractional_event])))
   \<and> map exported_view (events (snd (ImportEncrypted (one_event_reader fractional_event) (\<lambda>k. 0)
            (ClearAll (keyed_store [fractional_event]))
            (ExportEncrypted one_event_writer (keyed_store [fractional_event])))))
       = map exported_view (events (keyed_store [fractional_event]))"
    by (simp add: keyed_store_def ClearAll_def one_event_writer_def one_event_reader_def
        fractional_event_def kTimeTToMicrosecondsOffset_def)
  with ex v t t' show ?thesis by simp
qed
section \<open>Facts about the privacy filter\<close>

subsection \<open>Exclusion\<close>

lemma find_first_iff: "find_first p s \<noteq> None \<longleftrightarrow> (\<exists>pre post. s = pre @ p @ post)"
proof (induction s)
  case Nil
  then show ?case by auto
next
  case (Cons c cs)
  show ?case
  proof (cases "prefix p (c # cs)")
    case True
    then obtain post where "c # cs = p @ post" by (auto simp: prefix_def)
    then have "c # cs = [] @ p @ post" by simp
    then have "\<exists>pre post. c # cs = pre @ p @ post" by blast
    then show ?thesis using True by simp
  next
    case False
    have "(\<exists>pre post. c # cs = pre @ p @ post) \<longleftrightarrow> (\<exists>pre post. cs = pre @ p @ post)"
    proof
      assume "\<exists>pre post. c # cs = pre @ p @ post"
      then obtain pre post where e: "c # cs = pre @ p @ post" by blast
      show "\<exists>pre post. cs = pre @ p @ post"
      proof (cases pre)
        case Nil
        with e False show ?thesis by (simp add: prefix_def)
      next
        case (Cons a pre')
        with e have "cs = pre' @ p @ post" by simp
        then show ?thesis by blast
      qed
    next
      assume "\<exists>pre post. cs = pre @ p @ post"
      then obtain pre post where "cs = pre @ p @ post" by blast
      then have "c # cs = (c # pre) @ p @ post" by simp
      then show "\<exists>pre post. c # cs = pre @ p @ post" by blast
    qed
    with False Cons.IH show ?thesis by simp
  qed
qed

lemma matches_pattern_list_iff:
  "matches_pattern_list ps s \<longleftrightarrow> (\<exists>kw \<in> set ps. \<exists>pre post. s = pre @ kw @ post)"
  by (induction ps) (simp_all add: find_first_iff del: not_None_eq)

lemma IsCategoryExcluded_iff:
  "IsCategoryExcluded f d \<longleftrightarrow>
     (\<exists>kw \<in> enabled_keywords f. \<exists>pre post. ToLowerASCII d = pre @ kw @ post)"
  by (auto simp: IsCategoryExcluded_def enabled_keywords_def IsBankingSite_def
      IsHealthcareSite_def IsSocialMediaSite_def matches_pattern_list_iff)

lemma ends_with_iff:
  "length d > length x \<and> take (length (''.'' @ x)) (drop (length d - length (''.'' @ x)) d) = ''.'' @ x
   \<longleftrightarrow> (\<exists>pre. d = pre @ ''.'' @ x)"
proof
  assume a: "length d > length x \<and> take (length (''.'' @ x)) (drop (length d - length (''.'' @ x)) d) = ''.'' @ x"
  then have "drop (length d - length (''.'' @ x)) d = ''.'' @ x" by simp
  then have "d = take (length d - length (''.'' @ x)) d @ ''.'' @ x"
    by (metis append_take_drop_id)
  then show "\<exists>pre. d = pre @ ''.'' @ x" by blast
next
  assume "\<exists>pre. d = pre @ ''.'' @ x"
  then obtain pre where "d = pre @ ''.'' @ x" by blast
  then show "length d > length x \<and> take (length (''.'' @ x)) (drop (length d - length (''.'' @ x)) d) = ''.'' @ x"
    by simp
qed

lemma IsUserExcluded_iff:
  "IsUserExcluded f d \<longleftrightarrow>
     d \<in> user_excluded_domains f \<or> (\<exists>x \<in> user_excluded_domains f. \<exists>pre. d = pre @ ''.'' @ x)"
  unfolding IsUserExcluded_def Let_def using ends_with_iff by auto

text \<open>
  \<^bold>\<open>C5\<close>.  \<^verbatim>\<open>IsExcluded(url)\<close> is true exactly when the URL is invalid, or its host is
  a user-excluded domain, or its host ends with a dot followed by a user-excluded domain,
  or its host, lower-cased, contains a keyword of a category list whose flag is on; for
  every other valid URL it is false.
\<close>

theorem IsExcluded_iff:
  "IsExcluded f url \<longleftrightarrow>
     \<not> is_valid url
     \<or> host url \<in> user_excluded_domains f
     \<or> (\<exists>excluded \<in> user_excluded_domains f. \<exists>pre. host url = pre @ ''.'' @ excluded)
     \<or> (\<exists>keyword \<in> enabled_keywords f. \<exists>pre post. ToLowerASCII (host url) = pre @ keyword @ post)"
  by (simp add: IsExcluded_def Let_def IsUserExcluded_iff IsCategoryExcluded_iff)

theorem IsExcluded_iff_witness:
  "IsExcluded sample_filter invalid_url
   \<and> IsExcluded sample_filter (url_of_host ''example.com'')
   \<and> IsExcluded sample_filter (url_of_host ''mail.example.com'')
   \<and> IsExcluded sample_filter (url_of_host ''mybank.com'')
   \<and> \<not> IsExcluded sample_filter (url_of_host ''notexample.com'')
   \<and> \<not> (\<exists>keyword \<in> enabled_keywords sample_filter.
            \<exists>pre post. ToLowerASCII ''notexample.com'' = pre @ keyword @ post)"
proof -
  have dom: "user_excluded_domains sample_filter = {''example.com''}"
    by code_simp
  have 1: "IsExcluded sample_filter invalid_url"
    using IsExcluded_iff [of sample_filter invalid_url] by (simp add: invalid_url_def)
  have 2: "IsExcluded sample_filter (url_of_host ''example.com'')"
    using IsExcluded_iff [of sample_filter "url_of_host ''example.com''"]
    by (simp add: dom url_of_host_def)
  have "''mail.example.com'' = ''mail'' @ ''.'' @ ''example.com''" by simp
  then have 3: "IsExcluded sample_filter (url_of_host ''mail.example.com'')"
    using IsExcluded_iff [of sample_filter "url_of_host ''mail.example.com''"]
    unfolding dom url_of_host_def by (simp del: append.simps)
  have kw: "''bank'' \<in> enabled_keywords sample_filter"
    by code_simp
  have "ToLowerASCII ''mybank.com'' = ''my'' @ ''bank'' @ ''.com''" by code_simp
  with kw have 4: "IsExcluded sample_filter (url_of_host ''mybank.com'')"
    using IsExcluded_iff [of sample_filter "url_of_host ''mybank.com''"]
    unfolding url_of_host_def by (simp del: append.simps) blast
  have 5: "\<not> IsExcluded sample_filter (url_of_host ''notexample.com'')"
    by code_simp
  with IsExcluded_iff [of sample_filter "url_of_host ''notexample.com''"]
  have 6: "\<not> (\<exists>keyword \<in> enabled_keywords sample_filter.
            \<exists>pre post. ToLowerASCII ''notexample.com'' = pre @ keyword @ post)"
    by (simp add: url_of_host_def)
  from 1 2 3 4 5 6 show ?thesis by blast
qed

subsection \<open>Counting markers\<close>

lemma kPiiPatterns_list:
  "kPiiPatterns = [email_pattern, phone_pattern, ssn_pattern, card_pattern, zip_pattern]"
  by (simp add: email_pattern_def phone_pattern_def ssn_pattern_def card_pattern_def
      zip_pattern_def kPiiPatterns_def)

lemma kRedacted_Cons: "kRedacted = CHR ''['' # ''REDACTED]''"
  by (simp add: kRedacted_def)

lemma occurrences_skip:
  "a \<notin> set zs \<Longrightarrow> occurrences (a # w) (zs @ ys) = occurrences (a # w) ys"
  by (induction zs) auto

lemma occurrences_append_ge:
  "occurrences w xs + occurrences w ys \<le> occurrences w (xs @ ys)"
proof (induction xs)
  case Nil
  show ?case by simp
next
  case (Cons x xs)
  have "prefix w (x # xs) \<Longrightarrow> prefix w (x # xs @ ys)"
    using prefix_prefix [of w "x # xs" ys] by simp
  with Cons show ?case by auto
qed

lemma prefix_before_word:
  assumes "a \<notin> set w"
  shows "prefix (a # w) ((x # xs) @ (a # w) @ ys) \<longleftrightarrow> prefix (a # w) (x # xs)"
proof
  assume "prefix (a # w) ((x # xs) @ (a # w) @ ys)"
  then consider "prefix (a # w) (x # xs)"
    | us where "a # w = (x # xs) @ us" and "prefix us ((a # w) @ ys)"
    by (auto simp: prefix_append)
  then show "prefix (a # w) (x # xs)"
  proof cases
    case 1
    then show ?thesis .
  next
    case 2
    show ?thesis
    proof (cases us)
      case Nil
      with 2 show ?thesis by simp
    next
      case (Cons u us')
      with 2 have "u = a" by simp
      with 2 Cons have "w = xs @ a # us'" by simp
      with assms show ?thesis by simp
    qed
  qed
next
  assume "prefix (a # w) (x # xs)"
  then show "prefix (a # w) ((x # xs) @ (a # w) @ ys)"
    using prefix_prefix by blast
qed

lemma occurrences_insert:
  assumes "a \<notin> set w"
  shows "occurrences (a # w) (xs @ (a # w) @ ys)
           = occurrences (a # w) xs + 1 + occurrences (a # w) ys"
proof (induction xs)
  case Nil
  have "occurrences (a # w) (a # (w @ ys)) = 1 + occurrences (a # w) (w @ ys)"
    by simp
  then show ?case using occurrences_skip [OF assms, of w ys] by simp
next
  case (Cons x xs)
  have "prefix (a # w) (x # (xs @ (a # w) @ ys)) \<longleftrightarrow> prefix (a # w) (x # xs)"
    using prefix_before_word [OF assms, of x xs ys] by simp
  with Cons show ?case by simp
qed

lemma find_first_None_occurrences:
  "find_first w s = None \<Longrightarrow> occurrences w s = 0"
  by (induction s) (auto split: if_splits)

lemma find_first_Some_occurrences:
  "find_first w s = Some j \<Longrightarrow> occurrences w s = occurrences w (drop j s) \<and> prefix w (drop j s)"
proof (induction s arbitrary: j)
  case Nil
  then show ?case by (simp split: if_splits)
next
  case (Cons c cs)
  show ?case
  proof (cases "prefix w (c # cs)")
    case True
    with Cons.prems show ?thesis by simp
  next
    case False
    with Cons.prems obtain i where "find_first w cs = Some i" and "j = Suc i" by auto
    with Cons.IH False show ?thesis by simp
  qed
qed

lemma count_redacted_occurrences:
  "count_redacted s pos n = n + occurrences kRedacted (drop pos s)"
proof (induction s pos n rule: count_redacted.induct)
  case (1 s pos n)
  show ?case
  proof (cases "find_from kRedacted s pos")
    case None
    have "occurrences kRedacted (drop pos s) = 0"
    proof (cases "pos > length s")
      case True
      then show ?thesis by simp
    next
      case False
      with None have "find_first kRedacted (drop pos s) = None"
        by (simp add: find_from_def)
      then show ?thesis by (rule find_first_None_occurrences)
    qed
    with None show ?thesis by (simp add: count_redacted.simps [of s pos n])
  next
    case (Some found)
    then obtain j where j: "find_first kRedacted (drop pos s) = Some j" and f: "found = j + pos"
      by (auto simp: find_from_def split: if_splits)
    from find_first_Some_occurrences [OF j]
    have occ: "occurrences kRedacted (drop pos s) = occurrences kRedacted (drop found s)"
      and pre: "prefix kRedacted (drop found s)"
      by (simp_all add: f add.commute)
    from pre obtain rest where rest: "drop found s = kRedacted @ rest"
      by (auto simp: prefix_def)
    have "drop (found + 10) s = drop 10 (drop found s)"
      by (simp add: add.commute)
    also have "\<dots> = rest"
      unfolding rest by (simp add: kRedacted_def)
    finally have r: "drop (found + 10) s = rest" .
    have "occurrences kRedacted ([] @ kRedacted @ rest) = 0 + 1 + occurrences kRedacted rest"
      unfolding kRedacted_Cons by (subst occurrences_insert) simp_all
    then have "occurrences kRedacted (drop found s) = 1 + occurrences kRedacted rest"
      using rest by simp
    with occ r "1.IH" [OF Some] Some show ?thesis
      by (simp add: count_redacted.simps [of s pos n])
  qed
qed

lemma SanitizeSearchQuery_occurrences:
  "SanitizeSearchQuery q =
     (let r = fold (\<lambda>pattern result. regex_replace result pattern) kPiiPatterns q
      in if occurrences kRedacted r > 2 then [] else r)"
proof -
  let ?r = "fold (\<lambda>pattern result. regex_replace result pattern) kPiiPatterns q"
  show ?thesis
  proof (cases "find_first kRedacted ?r")
    case None
    then have "occurrences kRedacted ?r = 0" by (rule find_first_None_occurrences)
    with None show ?thesis by (simp add: SanitizeSearchQuery_def Let_def)
  next
    case (Some j)
    then show ?thesis
      by (simp add: SanitizeSearchQuery_def Let_def count_redacted_occurrences)
  qed
qed


subsection \<open>Facts about the matcher\<close>

lemma consumes_refl: "consumes ok pos pos"
  by (simp add: consumes_def)

lemma consumes_trans:
  "consumes ok p1 p2 \<Longrightarrow> consumes ok p2 p3 \<Longrightarrow> consumes ok p1 p3"
  unfolding consumes_def by (metis append.assoc list_all_append)

lemma consumes_mono:
  "consumes ok p1 p2 \<Longrightarrow> (\<And>c. ok c \<Longrightarrow> ok' c) \<Longrightarrow> consumes ok' p1 p2"
  unfolding consumes_def list_all_iff by blast

lemma repeat_match_consumes:
  assumes "\<And>p p'. p' \<in> set (step p) \<Longrightarrow> consumes ok p p'"
  shows "p' \<in> set (repeat_match n step p) \<Longrightarrow> consumes ok p p'"
proof (induction n arbitrary: p)
  case 0
  then show ?case by (simp add: consumes_refl)
next
  case (Suc n)
  then obtain q where "q \<in> set (step p)" and "p' \<in> set (repeat_match n step q)" by auto
  with Suc.IH assms show ?case by (blast intro: consumes_trans)
qed

lemma greedy_star_consumes:
  assumes "\<And>p p'. p' \<in> set (step p) \<Longrightarrow> consumes ok p p'"
  shows "p' \<in> set (greedy_star k step p) \<Longrightarrow> consumes ok p p'"
proof (induction k arbitrary: p)
  case 0
  then show ?case by (simp add: consumes_refl)
next
  case (Suc k)
  then consider "p' = p"
    | q where "q \<in> set (step p)" and "p' \<in> set (greedy_star k step q)"
    by (auto split: if_splits)
  then show ?case
  proof cases
    case 1
    then show ?thesis by (simp add: consumes_refl)
  next
    case 2
    with Suc.IH assms show ?thesis by (blast intro: consumes_trans)
  qed
qed

lemma match_at_consumes:
  "p' \<in> set (match_at re p) \<Longrightarrow> consumes (accepted re) p p'"
proof (induction re arbitrary: p p')
  case Empty
  then show ?case by (simp add: consumes_refl)
next
  case (Class items)
  then obtain c cs where "snd p = c # cs" and "class_matches items c" and "p' = (Some c, cs)"
    by (cases "snd p") (auto split: if_splits)
  then have "snd p = [c] @ snd p'" and "list_all (accepted (Class items)) [c]" by simp_all
  then show ?case unfolding consumes_def by blast
next
  case WordBoundary
  then show ?case by (simp add: consumes_refl split: if_splits)
next
  case (Seq a b)
  then obtain q where "q \<in> set (match_at a p)" and "p' \<in> set (match_at b q)" by auto
  with Seq.IH have a: "consumes (accepted a) p q" and b: "consumes (accepted b) q p'" by blast+
  from a have "consumes (accepted (Seq a b)) p q" by (rule consumes_mono) simp
  moreover from b have "consumes (accepted (Seq a b)) q p'" by (rule consumes_mono) simp
  ultimately show ?case by (rule consumes_trans)
next
  case (Opt a)
  from Opt.prems have "p' \<in> set (match_at a p) \<or> p' = p" by auto
  then show ?case
  proof
    assume "p' \<in> set (match_at a p)"
    then have "consumes (accepted a) p p'" by (rule Opt.IH)
    then show ?thesis by (rule consumes_mono) simp
  next
    assume "p' = p"
    then show ?thesis by (simp add: consumes_refl)
  qed
next
  case (Repeat n a)
  have step: "consumes (accepted (Repeat n a)) q q'" if "q' \<in> set (match_at a q)" for q q'
  proof -
    from that have "consumes (accepted a) q q'" by (rule Repeat.IH)
    then show ?thesis by (rule consumes_mono) simp
  qed
  from Repeat.prems have "p' \<in> set (repeat_match n (match_at a) p)" by simp
  with step show ?case by (rule repeat_match_consumes)
next
  case (AtLeast n a)
  have step: "consumes (accepted (AtLeast n a)) q q'" if "q' \<in> set (match_at a q)" for q q'
  proof -
    from that have "consumes (accepted a) q q'" by (rule AtLeast.IH)
    then show ?thesis by (rule consumes_mono) simp
  qed
  from AtLeast.prems obtain q where q: "q \<in> set (repeat_match n (match_at a) p)"
    and p': "p' \<in> set (greedy_star (length (snd q)) (match_at a) q)" by auto
  from step q have "consumes (accepted (AtLeast n a)) p q" by (rule repeat_match_consumes)
  moreover from step p' have "consumes (accepted (AtLeast n a)) q p'"
    by (rule greedy_star_consumes)
  ultimately show ?case by (rule consumes_trans)
qed

lemma reported_match_consumes:
  assumes "reported_match re (prev, s) = Some (prev', s')"
  shows "\<exists>m. s = m @ s' \<and> m \<noteq> [] \<and> list_all (accepted re) m"
proof -
  from assms have "(prev', s') \<in> set (match_at re (prev, s))" and len: "length s' < length s"
    by (auto simp: reported_match_def split: list.splits if_splits)
  from this(1) have "consumes (accepted re) (prev, s) (prev', s')" by (rule match_at_consumes)
  then obtain m where "s = m @ s'" and "list_all (accepted re) m" by (auto simp: consumes_def)
  with len show ?thesis by auto
qed

lemma replace_match:
  "reported_match re (prev, s) = Some (prev', s') \<Longrightarrow>
   regex_replace_from re prev s = kRedacted @ regex_replace_from re prev' s'"
  by (simp add: regex_replace_from.simps [of re prev s])

lemma replace_copy:
  "reported_match re (prev, c # cs) = None \<Longrightarrow>
   regex_replace_from re prev (c # cs) = c # regex_replace_from re (Some c) cs"
  by (simp add: regex_replace_from.simps [of re prev "c # cs"])

lemma reported_match_Nil: "reported_match re (prev, []) = None"
  by (simp add: reported_match_def split: list.splits)

lemma replace_Nil: "regex_replace_from re prev [] = []"
  by (simp add: regex_replace_from.simps [of re prev "[]"] reported_match_Nil)

lemma count_match:
  "reported_match re (prev, s) = Some (prev', s') \<Longrightarrow>
   match_count re prev s = Suc (match_count re prev' s')"
  by (simp add: match_count.simps [of re prev s])

lemma count_copy:
  "reported_match re (prev, c # cs) = None \<Longrightarrow>
   match_count re prev (c # cs) = match_count re (Some c) cs"
  by (simp add: match_count.simps [of re prev "c # cs"])

lemma count_Nil: "match_count re prev [] = 0"
  by (simp add: match_count.simps [of re prev "[]"] reported_match_Nil)

lemma occurrences_marker_front:
  "occurrences kRedacted (kRedacted @ ys) = Suc (occurrences kRedacted ys)"
proof -
  have "occurrences kRedacted ([] @ kRedacted @ ys) = 0 + 1 + occurrences kRedacted ys"
    unfolding kRedacted_Cons by (subst occurrences_insert) simp_all
  then show ?thesis by simp
qed

lemma match_count_le_occurrences:
  "match_count re prev s \<le> occurrences kRedacted (regex_replace_from re prev s)"
proof (induction re prev s rule: regex_replace_from.induct)
  case (1 re prev s)
  show ?case
  proof (cases "reported_match re (prev, s)")
    case (Some pos')
    obtain prev' s' where pos': "pos' = (prev', s')" by (cases pos')
    with Some "1.IH"(2) [OF Some pos' [symmetric]] show ?thesis
      by (simp add: replace_match count_match occurrences_marker_front)
  next
    case None
    show ?thesis
    proof (cases s)
      case Nil
      then show ?thesis by (simp add: count_Nil)
    next
      case (Cons c cs)
      with None "1.IH"(1) [OF None Cons] show ?thesis
        by (simp add: replace_copy count_copy)
    qed
  qed
qed

lemma no_match_unchanged:
  "match_count re prev s = 0 \<Longrightarrow> regex_replace_from re prev s = s"
proof (induction re prev s rule: regex_replace_from.induct)
  case (1 re prev s)
  show ?case
  proof (cases "reported_match re (prev, s)")
    case (Some pos')
    obtain prev' s' where "pos' = (prev', s')" by (cases pos')
    with Some "1.prems" show ?thesis by (simp add: count_match)
  next
    case None
    show ?thesis
    proof (cases s)
      case Nil
      then show ?thesis by (simp add: replace_Nil)
    next
      case (Cons c cs)
      with None "1.IH"(1) [OF None Cons] "1.prems" show ?thesis
        by (simp add: replace_copy count_copy)
    qed
  qed
qed

lemma one_match_replaced:
  "match_count re prev s = 1 \<Longrightarrow>
   \<exists>pre m post. s = pre @ m @ post \<and> m \<noteq> [] \<and> list_all (accepted re) m
                \<and> regex_replace_from re prev s = pre @ kRedacted @ post"
proof (induction re prev s rule: regex_replace_from.induct)
  case (1 re prev s)
  show ?case
  proof (cases "reported_match re (prev, s)")
    case (Some pos')
    obtain prev' s' where pos': "pos' = (prev', s')" by (cases pos')
    with Some "1.prems" have "match_count re prev' s' = 0" by (simp add: count_match)
    then have "regex_replace_from re prev' s' = s'" by (rule no_match_unchanged)
    with Some pos' have r: "regex_replace_from re prev s = [] @ kRedacted @ s'"
      by (simp add: replace_match)
    from Some pos' obtain m where "s = [] @ m @ s'" and "m \<noteq> []" and "list_all (accepted re) m"
      using reported_match_consumes [of re prev s prev' s'] by auto
    with r show ?thesis by blast
  next
    case None
    show ?thesis
    proof (cases s)
      case Nil
      with "1.prems" show ?thesis by (simp add: count_Nil)
    next
      case (Cons c cs)
      with None "1.prems" have "match_count re (Some c) cs = 1" by (simp add: count_copy)
      from "1.IH"(1) [OF None Cons this] obtain pre m post where
        "cs = pre @ m @ post" and m: "m \<noteq> []" "list_all (accepted re) m"
        and "regex_replace_from re (Some c) cs = pre @ kRedacted @ post"
        by blast
      with None Cons have "s = (c # pre) @ m @ post"
        and "regex_replace_from re prev s = (c # pre) @ kRedacted @ post"
        by (simp_all add: replace_copy)
      with m show ?thesis by blast
    qed
  qed
qed


subsection \<open>No pattern matches the empty string\<close>

lemma repeat_match_min_length:
  assumes "\<And>p p'. p' \<in> set (step p) \<Longrightarrow> length (snd p') + k \<le> length (snd p)"
  shows "p' \<in> set (repeat_match n step p) \<Longrightarrow> length (snd p') + n * k \<le> length (snd p)"
proof (induction n arbitrary: p)
  case 0
  then show ?case by simp
next
  case (Suc n)
  then obtain q where q: "q \<in> set (step p)" and "p' \<in> set (repeat_match n step q)" by auto
  with Suc.IH have "length (snd p') + n * k \<le> length (snd q)" by blast
  with assms [OF q] show ?case by simp
qed

lemma greedy_star_length:
  "p' \<in> set (greedy_star k step p) \<Longrightarrow> length (snd p') \<le> length (snd p)"
proof (induction k arbitrary: p)
  case 0
  then show ?case by simp
next
  case (Suc k)
  then consider "p' = p"
    | q where "q \<in> set (step p)" and "length (snd q) < length (snd p)"
        and "p' \<in> set (greedy_star k step q)"
    by (auto split: if_splits)
  then show ?case
  proof cases
    case 1
    then show ?thesis by simp
  next
    case 2
    with Suc.IH [of q] show ?thesis by simp
  qed
qed

lemma match_at_min_length:
  "p' \<in> set (match_at re p) \<Longrightarrow> length (snd p') + min_length re \<le> length (snd p)"
proof (induction re arbitrary: p p')
  case (Class items)
  then show ?case by (cases "snd p") (auto split: if_splits)
next
  case (Seq a b)
  then obtain q where "q \<in> set (match_at a p)" and "p' \<in> set (match_at b q)" by auto
  with Seq.IH have "length (snd q) + min_length a \<le> length (snd p)"
    and "length (snd p') + min_length b \<le> length (snd q)" by blast+
  then show ?case by simp
next
  case (Opt a)
  then have "p' \<in> set (match_at a p) \<or> p' = p" by auto
  with Opt.IH [of p' p] show ?case by auto
next
  case (Repeat n a)
  from Repeat.prems have "p' \<in> set (repeat_match n (match_at a) p)" by simp
  with Repeat.IH show ?case
    using repeat_match_min_length [of "match_at a" "min_length a" p' n p] by simp
next
  case (AtLeast n a)
  from AtLeast.prems obtain q where q: "q \<in> set (repeat_match n (match_at a) p)"
    and p': "p' \<in> set (greedy_star (length (snd q)) (match_at a) q)" by auto
  from q AtLeast.IH have "length (snd q) + n * min_length a \<le> length (snd p)"
    using repeat_match_min_length [of "match_at a" "min_length a" q n p] by simp
  with greedy_star_length [OF p'] show ?case by simp
qed (auto split: if_splits)

lemma pii_match_consumes:
  assumes "re \<in> set kPiiPatterns" and "p' \<in> set (match_at re p)"
  shows "length (snd p') < length (snd p)"
proof -
  have "list_all (\<lambda>re. 0 < min_length re) kPiiPatterns"
    by code_simp
  with assms(1) have "0 < min_length re" by (simp add: list_all_iff)
  with match_at_min_length [OF assms(2)] show ?thesis by simp
qed

lemma pii_reported_match:
  "re \<in> set kPiiPatterns \<Longrightarrow>
   reported_match re pos = (case match_at re pos of [] \<Rightarrow> None | pos' # _ \<Rightarrow> Some pos')"
  using pii_match_consumes [of re _ pos]
  by (auto simp: reported_match_def split: list.splits)

subsection \<open>The patterns made of digits\<close>

lemma is_digit_to_lower: "is_digit (to_lower_char c) = is_digit c"
  by (auto simp: to_lower_char_def is_digit_def is_upper_ascii_def)

lemma is_digit_to_upper: "is_digit (to_upper_char c) = is_digit c"
  by (auto simp: to_upper_char_def is_digit_def is_lower_ascii_def)

lemma class_matches_Digit: "class_matches [Digit] c = is_digit c"
  by (simp add: class_matches_def is_digit_to_lower is_digit_to_upper)

lemma digit_pattern_starts_with_digit:
  assumes "re \<in> set (tl kPiiPatterns)" and "\<not> is_digit c"
  shows "match_at re (prev, c # cs) = []"
proof -
  have d: "match_at digit (prev, c # cs) = []"
    using assms(2) by (simp add: digit_def class_matches_Digit)
  have r: "repeat_match (Suc n) (match_at digit) (prev, c # cs) = []" for n
    by (simp add: d)
  have "match_at (Seq WordBoundary (Seq (Repeat (Suc n) digit) rest)) (prev, c # cs) = []"
    for n rest
    by (simp add: r del: repeat_match.simps)
  then have "match_at (sequence (WordBoundary # Repeat (Suc n) digit # rest)) (prev, c # cs) = []"
    for n rest
    by (simp add: sequence_def)
  note this [of 2] this [of 15] this [of 4]
  then show ?thesis
    using assms(1) by (auto simp: kPiiPatterns_def eval_nat_numeral simp del: match_at.simps)
qed

lemma digit_pattern_no_report:
  "re \<in> set (tl kPiiPatterns) \<Longrightarrow> \<not> is_digit c \<Longrightarrow> reported_match re (prev, c # cs) = None"
  by (simp add: reported_match_def digit_pattern_starts_with_digit)

lemma digit_pattern_rejects_bracket:
  "re \<in> set (tl kPiiPatterns) \<Longrightarrow> \<not> accepted re CHR ''[''"
proof -
  have "list_all (\<lambda>re. \<not> accepted re CHR ''['') (tl kPiiPatterns)"
    by code_simp
  then show "re \<in> set (tl kPiiPatterns) \<Longrightarrow> \<not> accepted re CHR ''[''"
    by (simp add: list_all_iff)
qed

lemma copy_non_digits:
  assumes "re \<in> set (tl kPiiPatterns)"
  shows "list_all (\<lambda>c. \<not> is_digit c) zs \<Longrightarrow>
         regex_replace_from re prev (zs @ ys)
           = zs @ regex_replace_from re (if zs = [] then prev else Some (last zs)) ys"
proof (induction zs arbitrary: prev)
  case Nil
  show ?case by simp
next
  case (Cons z zs)
  then have "reported_match re (prev, z # zs @ ys) = None"
    using assms by (simp add: digit_pattern_no_report)
  then have "regex_replace_from re prev ((z # zs) @ ys)
               = z # regex_replace_from re (Some z) (zs @ ys)"
    by (simp add: replace_copy)
  with Cons show ?case by simp
qed

lemma kRedacted_no_digit: "list_all (\<lambda>c. \<not> is_digit c) kRedacted"
  by code_simp

lemma digit_pattern_keeps_markers:
  assumes re: "re \<in> set (tl kPiiPatterns)"
  shows "occurrences kRedacted s \<le> occurrences kRedacted (regex_replace_from re prev s)"
proof (induction "length s" arbitrary: s prev rule: less_induct)
  case less
  show ?case
  proof (cases "reported_match re (prev, s)")
    case (Some pos')
    obtain prev' s' where pos': "pos' = (prev', s')" by (cases pos')
    with Some obtain m where m: "s = m @ s'" "m \<noteq> []" "list_all (accepted re) m"
      using reported_match_consumes by blast
    then have "CHR ''['' \<notin> set m"
      using digit_pattern_rejects_bracket [OF re] by (auto simp: list_all_iff)
    then have "occurrences kRedacted (m @ s') = occurrences kRedacted s'"
      unfolding kRedacted_Cons by (rule occurrences_skip)
    also have "\<dots> \<le> occurrences kRedacted (regex_replace_from re prev' s')"
      using m by (intro less) simp
    also have "\<dots> \<le> occurrences kRedacted (regex_replace_from re prev s)"
      using Some pos' by (simp add: replace_match occurrences_marker_front)
    finally show ?thesis using m by simp
  next
    case None
    show ?thesis
    proof (cases s)
      case Nil
      then show ?thesis by (simp add: replace_Nil)
    next
      case (Cons c cs)
      show ?thesis
      proof (cases "prefix kRedacted s")
        case True
        then obtain rest where rest: "s = kRedacted @ rest" by (auto simp: prefix_def)
        have "regex_replace_from re prev (kRedacted @ rest)
                = kRedacted @ regex_replace_from re (Some (last kRedacted)) rest"
          using copy_non_digits [OF re kRedacted_no_digit, of prev rest]
          by (simp add: kRedacted_def)
        moreover have "occurrences kRedacted rest
                \<le> occurrences kRedacted (regex_replace_from re (Some (last kRedacted)) rest)"
          using rest by (intro less) (simp add: kRedacted_def)
        ultimately show ?thesis
          using rest by (simp add: occurrences_marker_front)
      next
        case False
        have "occurrences kRedacted cs \<le> occurrences kRedacted (regex_replace_from re (Some c) cs)"
          using Cons by (intro less) simp
        with False None Cons show ?thesis
          by (simp add: replace_copy)
      qed
    qed
  qed
qed

lemma tl_kPiiPatterns:
  "phone_pattern \<in> set (tl kPiiPatterns)" "ssn_pattern \<in> set (tl kPiiPatterns)"
  "card_pattern \<in> set (tl kPiiPatterns)" "zip_pattern \<in> set (tl kPiiPatterns)"
  by (simp_all add: kPiiPatterns_list)

lemma fold_kPiiPatterns:
  "fold (\<lambda>pattern result. regex_replace result pattern) kPiiPatterns q =
     regex_replace (regex_replace (regex_replace (regex_replace (regex_replace q
       email_pattern) phone_pattern) ssn_pattern) card_pattern) zip_pattern"
  by (simp add: kPiiPatterns_list)

lemma three_emails_suppressed:
  assumes "3 \<le> match_count email_pattern None q"
  shows "SanitizeSearchQuery q = []"
proof -
  let ?r1 = "regex_replace q email_pattern"
  let ?r2 = "regex_replace ?r1 phone_pattern"
  let ?r3 = "regex_replace ?r2 ssn_pattern"
  let ?r4 = "regex_replace ?r3 card_pattern"
  let ?r5 = "regex_replace ?r4 zip_pattern"
  have "3 \<le> occurrences kRedacted ?r1"
    using assms match_count_le_occurrences [of email_pattern None q]
    by (simp add: regex_replace_def)
  also have "\<dots> \<le> occurrences kRedacted ?r2"
    unfolding regex_replace_def [of _ phone_pattern]
    by (rule digit_pattern_keeps_markers) (rule tl_kPiiPatterns)
  also have "\<dots> \<le> occurrences kRedacted ?r3"
    unfolding regex_replace_def [of _ ssn_pattern]
    by (rule digit_pattern_keeps_markers) (rule tl_kPiiPatterns)
  also have "\<dots> \<le> occurrences kRedacted ?r4"
    unfolding regex_replace_def [of _ card_pattern]
    by (rule digit_pattern_keeps_markers) (rule tl_kPiiPatterns)
  also have "\<dots> \<le> occurrences kRedacted ?r5"
    unfolding regex_replace_def [of _ zip_pattern]
    by (rule digit_pattern_keeps_markers) (rule tl_kPiiPatterns)
  finally have "2 < occurrences kRedacted ?r5" by simp
  then show ?thesis
    by (simp add: SanitizeSearchQuery_occurrences fold_kPiiPatterns Let_def)
qed

lemma one_phone_replaced:
  assumes email: "match_count email_pattern None q = 0"
    and phone: "match_count phone_pattern None q = 1"
    and ssn: "match_count ssn_pattern None (regex_replace q phone_pattern) = 0"
    and card: "match_count card_pattern None (regex_replace q phone_pattern) = 0"
    and zip: "match_count zip_pattern None (regex_replace q phone_pattern) = 0"
    and own: "occurrences kRedacted q \<le> 1"
  shows "\<exists>pre number post. q = pre @ number @ post \<and> number \<noteq> []
           \<and> list_all (accepted phone_pattern) number
           \<and> regex_replace q phone_pattern = pre @ kRedacted @ post
           \<and> SanitizeSearchQuery q = pre @ kRedacted @ post"
proof -
  have r1: "regex_replace q email_pattern = q"
    using email by (simp add: regex_replace_def no_match_unchanged)
  from one_match_replaced [OF phone] obtain pre number post where
    q: "q = pre @ number @ post" and n: "number \<noteq> []" "list_all (accepted phone_pattern) number"
    and r2: "regex_replace q phone_pattern = pre @ kRedacted @ post"
    by (auto simp: regex_replace_def)
  have r3: "regex_replace (pre @ kRedacted @ post) ssn_pattern = pre @ kRedacted @ post"
    using ssn unfolding r2 by (simp add: regex_replace_def no_match_unchanged)
  have r4: "regex_replace (pre @ kRedacted @ post) card_pattern = pre @ kRedacted @ post"
    using card unfolding r2 by (simp add: regex_replace_def no_match_unchanged)
  have r5: "regex_replace (pre @ kRedacted @ post) zip_pattern = pre @ kRedacted @ post"
    using zip unfolding r2 by (simp add: regex_replace_def no_match_unchanged)
  have "occurrences kRedacted (pre @ kRedacted @ post)
          = occurrences kRedacted pre + 1 + occurrences kRedacted post"
    unfolding kRedacted_Cons by (rule occurrences_insert) simp
  also have "occurrences kRedacted pre + occurrences kRedacted post
               \<le> occurrences kRedacted pre + occurrences kRedacted (number @ post)"
    using occurrences_append_ge [of kRedacted number post] by simp
  then have "occurrences kRedacted pre + 1 + occurrences kRedacted post
               \<le> occurrences kRedacted q + 1"
    using occurrences_append_ge [of kRedacted pre "number @ post"] q by simp
  finally have "occurrences kRedacted (pre @ kRedacted @ post) \<le> 2"
    using own by simp
  then have "SanitizeSearchQuery q = pre @ kRedacted @ post"
    by (simp add: SanitizeSearchQuery_occurrences fold_kPiiPatterns Let_def r1 r2 r3 r4 r5)
  with q n r2 show ?thesis by blast
qed

subsection \<open>The sanitized query\<close>

text \<open>
  \<^bold>\<open>C6\<close>, as stated, fails for a query with one phone number and a ZIP code: it holds
  exactly one phone-like substring, and the result is not the query with only that
  substring replaced, since the ZIP pattern replaces the ZIP code as well.
\<close>

theorem SanitizeSearchQuery_phone_and_zip_counterexample:
  "match_count email_pattern None ''555-123-4567 90210'' = 0
   \<and> match_count phone_pattern None ''555-123-4567 90210'' = 1
   \<and> SanitizeSearchQuery ''555-123-4567 90210'' = ''[REDACTED] [REDACTED]''
   \<and> SanitizeSearchQuery ''555-123-4567 90210'' \<noteq> ''[REDACTED] 90210''"
  by code_simp

text \<open>
  \<^bold>\<open>C6\<close>, amended.  \<^verbatim>\<open>SanitizeSearchQuery\<close> runs the five patterns in order (email,
  phone, SSN, card, ZIP), each over the output of the one before, replacing every match
  the left-to-right scan finds with the marker; when the result holds more than two
  markers the empty string is returned, and the result otherwise.  In particular: a
  query in which the scan finds three or more email matches maps to the empty string;
  and a query in which the email pattern has no match, the phone pattern has exactly
  one, none of the SSN, card and ZIP patterns has a match once that one is replaced,
  and which holds at most one marker of its own, maps to the same query with only that
  substring (the phone pattern's match, made of digits, dashes and dots) replaced by the
  marker.
\<close>

theorem SanitizeSearchQuery_redacts:
  "SanitizeSearchQuery q =
     (let result = regex_replace (regex_replace (regex_replace (regex_replace (regex_replace q
                     email_pattern) phone_pattern) ssn_pattern) card_pattern) zip_pattern
      in if occurrences kRedacted result > 2 then [] else result)
   \<and> (3 \<le> match_count email_pattern None q \<longrightarrow> SanitizeSearchQuery q = [])
   \<and> (match_count email_pattern None q = 0
        \<and> match_count phone_pattern None q = 1
        \<and> match_count ssn_pattern None (regex_replace q phone_pattern) = 0
        \<and> match_count card_pattern None (regex_replace q phone_pattern) = 0
        \<and> match_count zip_pattern None (regex_replace q phone_pattern) = 0
        \<and> occurrences kRedacted q \<le> 1
      \<longrightarrow> (\<exists>pre number post. q = pre @ number @ post \<and> number \<noteq> []
             \<and> list_all (accepted phone_pattern) number
             \<and> regex_replace q phone_pattern = pre @ kRedacted @ post
             \<and> SanitizeSearchQuery q = pre @ kRedacted @ post))"
  using three_emails_suppressed [of q] one_phone_replaced [of q]
  by (simp add: SanitizeSearchQuery_occurrences fold_kPiiPatterns)

theorem SanitizeSearchQuery_redacts_witness:
  "match_count email_pattern None ''a@b.com c@d.org e@f.net'' = 3
   \<and> SanitizeSearchQuery ''a@b.com c@d.org e@f.net'' = []
   \<and> match_count phone_pattern None ''call 555-123-4567 now'' = 1
   \<and> (\<exists>pre number post. ''call 555-123-4567 now'' = pre @ number @ post \<and> number \<noteq> []
         \<and> list_all (accepted phone_pattern) number
         \<and> regex_replace ''call 555-123-4567 now'' phone_pattern = pre @ kRedacted @ post
         \<and> SanitizeSearchQuery ''call 555-123-4567 now'' = pre @ kRedacted @ post)
   \<and> SanitizeSearchQuery ''call 555-123-4567 now'' = ''call [REDACTED] now''"
proof -
  have e: "match_count email_pattern None ''a@b.com c@d.org e@f.net'' = 3"
    by code_simp
  have h: "match_count email_pattern None ''call 555-123-4567 now'' = 0
      \<and> match_count phone_pattern None ''call 555-123-4567 now'' = 1
      \<and> match_count ssn_pattern None (regex_replace ''call 555-123-4567 now'' phone_pattern) = 0
      \<and> match_count card_pattern None (regex_replace ''call 555-123-4567 now'' phone_pattern) = 0
      \<and> match_count zip_pattern None (regex_replace ''call 555-123-4567 now'' phone_pattern) = 0
      \<and> occurrences kRedacted ''call 555-123-4567 now'' \<le> 1"
    by code_simp
  have v: "SanitizeSearchQuery ''call 555-123-4567 now'' = ''call [REDACTED] now''"
    by code_simp
  from SanitizeSearchQuery_redacts [of "''a@b.com c@d.org e@f.net''", THEN conjunct2, THEN conjunct1] e
  have 1: "SanitizeSearchQuery ''a@b.com c@d.org e@f.net'' = []" by simp
  from SanitizeSearchQuery_redacts [of "''call 555-123-4567 now''", THEN conjunct2, THEN conjunct2] h
  have 2: "\<exists>pre number post. ''call 555-123-4567 now'' = pre @ number @ post \<and> number \<noteq> []
         \<and> list_all (accepted phone_pattern) number
         \<and> regex_replace ''call 555-123-4567 now'' phone_pattern = pre @ kRedacted @ post
         \<and> SanitizeSearchQuery ''call 555-123-4567 now'' = pre @ kRedacted @ post"
    by blast
  from e 1 h 2 v show ?thesis by blast
qed

text \<open>
  Two more inputs show why the amended statement counts the matches of the scan and the
  markers of the query.  Three addresses joined by dots are each matched by the email
  pattern on their own, but the scan over the joined text finds two matches, and the
  query is not suppressed.  A query that holds two markers of its own and one phone
  number is suppressed.
\<close>

lemma adjacent_emails_merge:
  "(Some CHR ''c'', []) \<in> set (match_at email_pattern (None, ''a@b.cc''))
   \<and> (Some CHR ''f'', []) \<in> set (match_at email_pattern (None, ''dd@e.ff''))
   \<and> (Some CHR ''i'', []) \<in> set (match_at email_pattern (None, ''gg@h.ii''))
   \<and> match_count email_pattern None ''a@b.cc.dd@e.ff.gg@h.ii'' = 2
   \<and> SanitizeSearchQuery ''a@b.cc.dd@e.ff.gg@h.ii'' = ''[REDACTED]@[REDACTED]''"
  by code_simp

lemma own_markers_count:
  "match_count phone_pattern None ''[REDACTED] [REDACTED] 555-123-4567'' = 1
   \<and> SanitizeSearchQuery ''[REDACTED] [REDACTED] 555-123-4567'' = []"
  by code_simp

section \<open>Facts about the intent analyzer\<close>

lemma parse_loop_append:
  "parse_loop ind now k items signals = signals @ parse_loop ind now k items []"
proof (induction items arbitrary: k signals)
  case Nil
  show ?case by simp
next
  case (Cons item items)
  show ?case
  proof (cases item)
    case (DICT dict)
    have "parse_loop ind now (Suc k) items (signals @ [parse_signal (ind k) (now k) dict])
          = (signals @ [parse_signal (ind k) (now k) dict]) @ parse_loop ind now (Suc k) items []"
      by (rule Cons.IH)
    moreover have "parse_loop ind now (Suc k) items [parse_signal (ind k) (now k) dict]
          = [parse_signal (ind k) (now k) dict] @ parse_loop ind now (Suc k) items []"
      by (rule Cons.IH)
    ultimately show ?thesis using DICT by simp
  qed (simp_all add: Cons.IH [of "Suc k" signals])
qed

lemma length_parse_loop:
  "length (parse_loop ind now k items signals) = length signals + length (filter is_dict items)"
  by (induction ind now k items signals rule: parse_loop.induct) simp_all

lemma parse_loop_member:
  "i < length items \<Longrightarrow> items ! i = DICT dict \<Longrightarrow>
   parse_signal (ind (k + i)) (now (k + i)) dict \<in> set (parse_loop ind now k items signals)"
proof (induction items arbitrary: i k signals)
  case Nil
  then show ?case by simp
next
  case (Cons item items)
  show ?case
  proof (cases i)
    case 0
    with Cons.prems have "item = DICT dict" by simp
    then show ?thesis
      using 0 parse_loop_append [of ind now "Suc k" items "signals @ [parse_signal (ind k) (now k) dict]"]
      by simp
  next
    case (Suc j)
    with Cons.prems have j: "j < length items" "items ! j = DICT dict" by simp_all
    have "parse_signal (ind (Suc k + j)) (now (Suc k + j)) dict
            \<in> set (parse_loop ind now (Suc k) items signals')" for signals'
      using j by (rule Cons.IH)
    then show ?thesis using Suc by (cases item) simp_all
  qed
qed

lemma parse_signal_confidence:
  assumes "FindDouble dict ''confidence'' = Some c"
  shows "confidence_score (parse_signal ind now dict) = c"
    and "confidence (parse_signal ind now dict)
           = (if c < round_to_double 0.4 then LOW
              else if c < round_to_double 0.7 then MEDIUM else HIGH)"
  using assms
  by (auto simp: parse_signal_def Let_def split: option.splits)

lemma confidence_of_double:
  assumes "FindDouble dict ''confidence'' = Some c" and "round_to_double c = c"
  shows "confidence (parse_signal ind now dict)
           = (if c < 0.4 then LOW
              else if c < 0.7 \<and> c \<noteq> round_to_double 0.7 then MEDIUM else HIGH)"
proof -
  have "c < round_to_double 0.7 \<longleftrightarrow> c < 0.7 \<and> c \<noteq> round_to_double 0.7"
    using double_below_0_7 [OF assms(2)] by auto
  then show ?thesis
    unfolding parse_signal_confidence(2) [OF assms(1)] double_below_0_4 [OF assms(2)]
    by simp
qed

text \<open>
  \<^bold>\<open>C8\<close>.  The decimals 0.4 and 0.7 of the claim are the literals of the source, and a
  score that the response writes as 0.39, 0.40, 0.69 or 0.70 reaches the comparison as
  the double nearest to the decimal.  A record of the model's response that carries a
  confidence \<open>c\<close> is parsed to a signal of the returned list whose score is \<open>c\<close> and whose
  level is Low when \<open>c\<close> is less than the double 0.4, Medium when it is at least the
  double 0.4 and less than the double 0.7, and High when it is at least the double 0.7;
  the instance after the theorem parses the doubles 0.39, 0.40, 0.69 and 0.70 to Low,
  Medium, Medium, High.  (Lemma \<open>confidence_of_double\<close> compares a double \<open>c\<close> with the two
  decimals themselves: the levels are the same, but for the one double nearest to 0.7,
  which is below 0.7 and High.)
\<close>

theorem confidence_level_buckets:
  assumes "Read response = Some (LIST items)"
    and "k < length items" and "items ! k = DICT dict"
    and "FindDouble dict ''confidence'' = Some c"
  shows "parse_signal (ind k) (now k) dict \<in> set (ParseResponse Read ind now response)
       \<and> confidence_score (parse_signal (ind k) (now k) dict) = c
       \<and> (c < round_to_double 0.4 \<longrightarrow> confidence (parse_signal (ind k) (now k) dict) = LOW)
       \<and> (round_to_double 0.4 \<le> c \<and> c < round_to_double 0.7
            \<longrightarrow> confidence (parse_signal (ind k) (now k) dict) = MEDIUM)
       \<and> (round_to_double 0.7 \<le> c \<longrightarrow> confidence (parse_signal (ind k) (now k) dict) = HIGH)"
proof -
  have less: "round_to_double 0.4 < round_to_double 0.7"
    unfolding double_0_4 double_0_7 by simp
  have "parse_signal (ind k) (now k) dict \<in> set (ParseResponse Read ind now response)"
    using assms(1-3) parse_loop_member [of k items dict ind 0 now "[]"]
    by (simp add: ParseResponse_def)
  then show ?thesis
    using less
    unfolding parse_signal_confidence(1) [OF assms(4)] parse_signal_confidence(2) [OF assms(4)]
    by auto
qed

theorem confidence_level_buckets_witness:
  "map confidence (ParseResponse scored_reader (\<lambda>k. (NAVIGATION_INTENT, HIGH, 0)) (\<lambda>k. 0) scored_response)
     = [LOW, MEDIUM, MEDIUM, HIGH]
   \<and> map confidence_score
        (ParseResponse scored_reader (\<lambda>k. (NAVIGATION_INTENT, HIGH, 0)) (\<lambda>k. 0) scored_response)
     = [3512807709348987 / 9007199254740992, 3602879701896397 / 9007199254740992,
        1553741871442821 / 2251799813685248, 3152519739159347 / 4503599627370496]
   \<and> confidence (parse_signal (NAVIGATION_INTENT, HIGH, 0) 0
        [(''confidence'', DOUBLE (round_to_double 0.39))]) = LOW
   \<and> confidence (parse_signal (NAVIGATION_INTENT, HIGH, 0) 0
        [(''confidence'', DOUBLE (round_to_double 0.4))]) = MEDIUM
   \<and> confidence (parse_signal (NAVIGATION_INTENT, HIGH, 0) 0
        [(''confidence'', DOUBLE (round_to_double 0.69))]) = MEDIUM
   \<and> confidence (parse_signal (NAVIGATION_INTENT, HIGH, 0) 0
        [(''confidence'', DOUBLE (round_to_double 0.7))]) = HIGH"
proof -
  let ?d0 = "[(''confidence'', DOUBLE (round_to_double 0.39))]"
  let ?d1 = "[(''confidence'', DOUBLE (round_to_double 0.4))]"
  let ?d2 = "[(''confidence'', DOUBLE (round_to_double 0.69))]"
  let ?d3 = "[(''confidence'', DOUBLE (round_to_double 0.7))]"
  let ?items = "[DICT ?d0, DICT ?d1, DICT ?d2, DICT ?d3]"
  let ?ind = "\<lambda>k::nat. (NAVIGATION_INTENT, HIGH, 0::real)"
  let ?now = "\<lambda>k::nat. 0::int"
  have rd: "scored_reader scored_response = Some (LIST ?items)"
    by (simp add: scored_reader_def)
  have all: "ParseResponse scored_reader ?ind ?now scored_response
      = [parse_signal (NAVIGATION_INTENT, HIGH, 0) 0 ?d0,
         parse_signal (NAVIGATION_INTENT, HIGH, 0) 0 ?d1,
         parse_signal (NAVIGATION_INTENT, HIGH, 0) 0 ?d2,
         parse_signal (NAVIGATION_INTENT, HIGH, 0) 0 ?d3]"
    by (simp add: ParseResponse_def rd)
  have order: "round_to_double 0.39 < round_to_double 0.4"
    "round_to_double 0.4 < round_to_double 0.69" "round_to_double 0.69 < round_to_double 0.7"
    unfolding double_0_39 double_0_4 double_0_69 double_0_7 by simp_all
  have f: "FindDouble [(''confidence'', DOUBLE x)] ''confidence'' = Some x" for x
    by (simp add: FindDouble_def)
  have k: "(0::nat) < length ?items" "(1::nat) < length ?items" "(2::nat) < length ?items"
    "(3::nat) < length ?items"
    "?items ! 0 = DICT ?d0" "?items ! 1 = DICT ?d1" "?items ! 2 = DICT ?d2" "?items ! 3 = DICT ?d3"
    by simp_all
  note b0 = confidence_level_buckets [of scored_reader scored_response ?items 0 ?d0
      "round_to_double 0.39" ?ind ?now, OF rd k(1) k(5) f]
  note b1 = confidence_level_buckets [of scored_reader scored_response ?items 1 ?d1
      "round_to_double 0.4" ?ind ?now, OF rd k(2) k(6) f]
  note b2 = confidence_level_buckets [of scored_reader scored_response ?items 2 ?d2
      "round_to_double 0.69" ?ind ?now, OF rd k(3) k(7) f]
  note b3 = confidence_level_buckets [of scored_reader scored_response ?items 3 ?d3
      "round_to_double 0.7" ?ind ?now, OF rd k(4) k(8) f]
  have 0: "confidence (parse_signal (NAVIGATION_INTENT, HIGH, 0) 0 ?d0) = LOW"
    using b0 order(1) by blast
  have 1: "confidence (parse_signal (NAVIGATION_INTENT, HIGH, 0) 0 ?d1) = MEDIUM"
    using b1 order(2,3) by (meson less_trans order_refl)
  have 2: "confidence (parse_signal (NAVIGATION_INTENT, HIGH, 0) 0 ?d2) = MEDIUM"
    using b2 order(2,3) by (meson less_imp_le)
  have 3: "confidence (parse_signal (NAVIGATION_INTENT, HIGH, 0) 0 ?d3) = HIGH"
    using b3 by (meson order_refl)
  have s: "confidence_score (parse_signal (NAVIGATION_INTENT, HIGH, 0) 0 ?d0) = round_to_double 0.39"
    "confidence_score (parse_signal (NAVIGATION_INTENT, HIGH, 0) 0 ?d1) = round_to_double 0.4"
    "confidence_score (parse_signal (NAVIGATION_INTENT, HIGH, 0) 0 ?d2) = round_to_double 0.69"
    "confidence_score (parse_signal (NAVIGATION_INTENT, HIGH, 0) 0 ?d3) = round_to_double 0.7"
    using b0 b1 b2 b3 by blast+
  have scores0: "map confidence_score (ParseResponse scored_reader ?ind ?now scored_response)
     = [round_to_double 0.39, round_to_double 0.4, round_to_double 0.69, round_to_double 0.7]"
    unfolding all list.map s ..
  have scores: "map confidence_score (ParseResponse scored_reader ?ind ?now scored_response)
     = [3512807709348987 / 9007199254740992, 3602879701896397 / 9007199254740992,
        1553741871442821 / 2251799813685248, 3152519739159347 / 4503599627370496]"
    unfolding scores0 double_0_39 double_0_4 double_0_69 double_0_7 ..
  have levels: "map confidence (ParseResponse scored_reader ?ind ?now scored_response)
     = [LOW, MEDIUM, MEDIUM, HIGH]"
    unfolding all list.map 0 1 2 3 ..
  from levels scores 0 1 2 3 show ?thesis by blast
qed

text \<open>
  \<^bold>\<open>C2\<close> (the code departs from the claim).  The claim: a record without a confidence
  is dropped from the returned and the cached list.  \<^verbatim>\<open>ParseResponse\<close> pushes a signal for
  every record; for a record without a confidence the score and the level are never
  assigned, and \<^verbatim>\<open>AnalyzeEvents\<close> compares that unassigned score with the threshold.  For
  a response of one such record and storage that happens to hold 0.9, the signal is
  returned and cached.
\<close>

theorem ParseResponse_keeps_record_without_confidence:
  "bare_record_reader bare_record_response
     = Some (LIST [DICT [(''category'', STRING ''shoes''), (''type'', STRING ''PURCHASE_INTENT'')]])
   \<and> FindDouble [(''category'', STRING ''shoes''), (''type'', STRING ''PURCHASE_INTENT'')] ''confidence'' = None
   \<and> ParseResponse bare_record_reader indeterminate now bare_record_response
       = [bare_record_signal (indeterminate 0) (now 0)]
   \<and> AnalyzeEvents BuildPrompt (\<lambda>handle prompt. bare_record_response) bare_record_reader
        (\<lambda>k. (NAVIGATION_INTENT, HIGH, 0.9)) now ready_analyzer [event]
       = ([bare_record_signal (NAVIGATION_INTENT, HIGH, 0.9) (now 0)],
          ready_analyzer\<lparr>cached_intents := [bare_record_signal (NAVIGATION_INTENT, HIGH, 0.9) (now 0)]\<rparr>)"
proof -
  have rd: "bare_record_reader bare_record_response
     = Some (LIST [DICT [(''category'', STRING ''shoes''), (''type'', STRING ''PURCHASE_INTENT'')]])"
    by (simp add: bare_record_reader_def)
  have none: "FindDouble [(''category'', STRING ''shoes''), (''type'', STRING ''PURCHASE_INTENT'')] ''confidence'' = None"
    by (simp add: FindDouble_def)
  have sig: "parse_signal i t [(''category'', STRING ''shoes''), (''type'', STRING ''PURCHASE_INTENT'')]
               = bare_record_signal i t" for i t
    by (simp add: parse_signal_def none FindString_def IntentSignal_default_def bare_record_signal_def)
  have pr: "ParseResponse bare_record_reader ind now bare_record_response
       = [bare_record_signal (ind 0) (now 0)]" for ind
    by (simp add: ParseResponse_def rd sig)
  have ready: "IsReady ready_analyzer" "min_confidence ready_analyzer = 0.5"
    "model_handle ready_analyzer = 1"
    by (simp_all add: IsReady_def ready_analyzer_def IntentAnalyzer_init_def)
  have an: "AnalyzeEvents BuildPrompt (\<lambda>handle prompt. bare_record_response) bare_record_reader
        (\<lambda>k. (NAVIGATION_INTENT, HIGH, 0.9)) now ready_analyzer [event]
       = ([bare_record_signal (NAVIGATION_INTENT, HIGH, 0.9) (now 0)],
          ready_analyzer\<lparr>cached_intents := [bare_record_signal (NAVIGATION_INTENT, HIGH, 0.9) (now 0)]\<rparr>)"
    by (simp add: AnalyzeEvents_def ready RunInference_def pr Let_def)
       (simp add: bare_record_signal_def)
  from rd none pr an show ?thesis by simp
qed

section \<open>Facts about the collector\<close>

lemma OnPageLoad_gates:
  "IsIncognito contents \<or> \<not> IsCollectionEnabled c \<or> IsExcludedSite c url \<Longrightarrow>
   OnPageLoad SHA1HashString now c url contents = c"
  by (auto simp: OnPageLoad_def)

lemma hooks_when_disabled:
  assumes "\<not> IsCollectionEnabled c"
  shows "OnPageLoad SHA1HashString now c url contents = c"
    and "OnPageUnload SHA1HashString now c url time_on_page = c"
    and "OnScroll c depth = c"
    and "OnClick now c selector = c"
    and "OnSearchQuery now c query = c"
    and "OnFormSubmit now c field_types = c"
  using assms
  by (simp_all add: OnPageLoad_def OnPageUnload_def OnScroll_def OnClick_def OnSearchQuery_def
      OnFormSubmit_def)

text \<open>
  \<^bold>\<open>C1\<close> (the code departs from the claim).  The claim: every hook drops the event when
  the session is private, or collection is disabled, or the privacy filter excludes the
  URL.  \<^verbatim>\<open>OnPageLoad\<close> checks the three gates in that order, and every hook checks the
  enabled flag (the two lemmas above); \<^verbatim>\<open>OnPageUnload\<close> is handed the URL and does not ask
  the filter.  On a fresh collector the banking URL below is excluded, \<^verbatim>\<open>OnPageLoad\<close>
  stores nothing for it, and \<^verbatim>\<open>OnPageUnload\<close> stores a page-unload event with its hash.
\<close>

theorem OnPageUnload_stores_excluded_site:
  "IsCollectionEnabled BrowsingDataCollector_init
   \<and> \<not> IsIncognito None
   \<and> IsExcludedSite BrowsingDataCollector_init (url_of_host ''mybank.com'')
   \<and> GetCollectedEvents BrowsingDataCollector_init = []
   \<and> GetCollectedEvents (OnPageLoad SHA1HashString now BrowsingDataCollector_init
        (url_of_host ''mybank.com'') None) = []
   \<and> GetCollectedEvents (OnPageUnload SHA1HashString now BrowsingDataCollector_init
        (url_of_host ''mybank.com'') time_on_page)
       = [\<lparr>type = PAGE_UNLOAD, url_hash = HashUrl SHA1HashString (url_of_host ''mybank.com''),
           timestamp = now, duration = time_on_page, scroll_depth = 0, element_type = [],
           search_query = [], referrer_hash = []\<rparr>]"
proof -
  have ex: "IsExcludedSite BrowsingDataCollector_init (url_of_host ''mybank.com'')"
    by code_simp
  have en: "IsCollectionEnabled BrowsingDataCollector_init"
    by (simp add: IsCollectionEnabled_def BrowsingDataCollector_init_def)
  have e0: "GetCollectedEvents BrowsingDataCollector_init = []"
    by (simp add: GetCollectedEvents_def GetAllEvents_def BrowsingDataCollector_init_def
        EncryptedStore_init_def)
  have ld: "OnPageLoad SHA1HashString now BrowsingDataCollector_init
        (url_of_host ''mybank.com'') None = BrowsingDataCollector_init"
    using ex by (simp add: OnPageLoad_def)
  have ul: "GetCollectedEvents (OnPageUnload SHA1HashString now BrowsingDataCollector_init
        (url_of_host ''mybank.com'') time_on_page)
       = [\<lparr>type = PAGE_UNLOAD, url_hash = HashUrl SHA1HashString (url_of_host ''mybank.com''),
           timestamp = now, duration = time_on_page, scroll_depth = 0, element_type = [],
           search_query = [], referrer_hash = []\<rparr>]"
    using en
    by (simp add: OnPageUnload_def GetCollectedEvents_def GetAllEvents_def StoreEvent_def
        BrowsingEvent_init_def Let_def)
       (simp add: BrowsingDataCollector_init_def EncryptedStore_init_def kMaxCachedEvents_def)
  from ex en e0 ld ul show ?thesis by (simp add: IsIncognito_def)
qed

end
